theory Spec2Isabelle
  imports Main "HOL-Library.Word" "HOL-Library.Sublist"
begin

unbundle bit_operations_syntax

section \<open>Machine types\<close>

text \<open>
  Bytes and the fixed-width unsigned integers of the source are words, so that every
  arithmetic operation wraps as it does in C++. Positions, lengths and loop counters
  (\<open>int\<close> and \<open>size_t\<close> in the source) are natural numbers; no \<open>int\<close> computation of the
  source overflows for inputs shorter than \<open>2^31 - 255\<close> bytes, and the natural numbers
  agree with the source there.
\<close>

type_synonym byte = "8 word"
type_synonym u16 = "16 word"
type_synonym u32 = "32 word"
type_synonym u64 = "64 word"

section \<open>bitstream.cpp\<close>

record BitWriter =
  bw_buffer :: "byte list"
  current_byte :: byte
  bit_count :: nat

definition BitWriter_init :: BitWriter where
  "BitWriter_init = \<lparr>bw_buffer = [], current_byte = 0, bit_count = 0\<rparr>"

definition WriteBit :: "bool \<Rightarrow> BitWriter \<Rightarrow> BitWriter" where
  "WriteBit b w =
     (let w1 = (if b then w\<lparr>current_byte := current_byte w OR push_bit (7 - bit_count w) 1\<rparr>
                else w);
          w2 = w1\<lparr>bit_count := bit_count w1 + 1\<rparr>
      in if bit_count w2 = 8
         then w2\<lparr>bw_buffer := bw_buffer w2 @ [current_byte w2], current_byte := 0, bit_count := 0\<rparr>
         else w2)"

definition BitWriter_Flush :: "BitWriter \<Rightarrow> BitWriter" where
  "BitWriter_Flush w =
     (if bit_count w > 0
      then w\<lparr>bw_buffer := bw_buffer w @ [current_byte w], current_byte := 0, bit_count := 0\<rparr>
      else w)"

definition GetData :: "BitWriter \<Rightarrow> byte list" where
  "GetData w = bw_buffer w"

record BitReader =
  br_data :: "byte list"
  byte_index :: nat
  bit_index :: nat

definition BitReader_init :: "byte list \<Rightarrow> BitReader" where
  "BitReader_init d = \<lparr>br_data = d, byte_index = 0, bit_index = 0\<rparr>"

definition ReadBit :: "BitReader \<Rightarrow> bool \<times> BitReader" where
  "ReadBit r =
     (if byte_index r \<ge> length (br_data r) then (False, r)
      else let b = (drop_bit (7 - bit_index r) (br_data r ! byte_index r) AND 1 \<noteq> 0);
               r1 = r\<lparr>bit_index := bit_index r + 1\<rparr>
           in if bit_index r1 = 8
              then (b, r1\<lparr>byte_index := byte_index r1 + 1, bit_index := 0\<rparr>)
              else (b, r1))"

text \<open>Writing a whole flag sequence, and reading a given number of bits back.\<close>

definition write_bits_of :: "bool list \<Rightarrow> byte list" where
  "write_bits_of bs = GetData (BitWriter_Flush (fold WriteBit bs BitWriter_init))"

fun read_n :: "nat \<Rightarrow> BitReader \<Rightarrow> bool list" where
  "read_n 0 r = []"
| "read_n (Suc n) r = (case ReadBit r of (b, r1) \<Rightarrow> b # read_n n r1)"

text \<open>
  The layout in the words of the specification: bits packed MSB-first, eight to a byte,
  the bit at position \<open>k\<close> of a group in bit \<open>7 - k\<close> of its byte, and the last byte padded
  with zeros in its low-order bits.
\<close>

fun byte_msb_first :: "nat \<Rightarrow> bool list \<Rightarrow> byte" where
  "byte_msb_first k [] = 0"
| "byte_msb_first k (b # bs) = (if b then push_bit (7 - k) 1 else 0) OR byte_msb_first (k + 1) bs"

function pack_msb_first :: "bool list \<Rightarrow> byte list" where
  "pack_msb_first bs =
     (if bs = [] then [] else byte_msb_first 0 (take 8 bs) # pack_msb_first (drop 8 bs))"
  by pat_completeness auto
termination
  by (relation "measure length") auto

declare pack_msb_first.simps [simp del]

section \<open>rans.cpp: the symbol model\<close>

definition PROB_BITS :: nat where
  "PROB_BITS = 12"

definition PROB_SCALE :: u32 where
  "PROB_SCALE = push_bit PROB_BITS 1"

definition RANS_L :: u32 where
  "RANS_L = push_bit 16 1"

record SymbolStats =
  freqs :: "u32 list"
  cum_freqs :: "u32 list"

definition tally :: "byte list \<Rightarrow> u32 list" where
  "tally data = fold (\<lambda>b fr. fr[unat b := fr ! unat b + 1]) data (replicate 256 0)"

text \<open>
  The scaling pass replaces a non-zero count by its share of \<open>PROB_SCALE\<close>, at least 1, and
  leaves a zero count alone; the running total adds the new value.
\<close>

definition scale_freq :: "u64 \<Rightarrow> u32 \<Rightarrow> u32" where
  "scale_freq tot f =
     (if f > 0
      then (let scaled = (ucast f * ucast PROB_SCALE) div tot
            in ucast (if scaled = 0 then 1 else scaled))
      else f)"

fun scale_step :: "u64 \<Rightarrow> nat \<Rightarrow> u32 list \<times> u32 \<Rightarrow> u32 list \<times> u32" where
  "scale_step tot i (fr, current_total) =
     (fr[i := scale_freq tot (fr ! i)], current_total + scale_freq tot (fr ! i))"

partial_function (option) decrement_loop :: "u32 list \<Rightarrow> u32 \<Rightarrow> nat \<Rightarrow> u32 list option" where
  "decrement_loop fr current_total i =
     (if current_total > PROB_SCALE
      then (if fr ! i > 1
            then decrement_loop (fr[i := fr ! i - 1]) (current_total - 1) ((i + 1) mod 256)
            else decrement_loop fr current_total ((i + 1) mod 256))
      else Some fr)"

declare decrement_loop.simps [code]

definition cum_step :: "u32 list \<Rightarrow> nat \<Rightarrow> u32 list \<Rightarrow> u32 list" where
  "cum_step fr i cum = cum[i + 1 := cum ! i + fr ! i]"

text \<open>All 257 entries of the cumulative table are overwritten, whatever it held before.\<close>

definition build_cum :: "u32 list \<Rightarrow> u32 list" where
  "build_cum fr = fold (cum_step fr) [0..<256] (replicate 257 0)"

definition with_cum :: "u32 list \<Rightarrow> SymbolStats" where
  "with_cum fr = \<lparr>freqs = fr, cum_freqs = build_cum fr\<rparr>"

text \<open>The adjustment of the scaled table to the exact total.\<close>

fun adjust :: "u32 list \<times> u32 \<Rightarrow> u32 list option" where
  "adjust (fr, current_total) =
     (if current_total < PROB_SCALE
      then Some (fr[0 := fr ! 0 + (PROB_SCALE - current_total)])
      else if current_total > PROB_SCALE
      then decrement_loop fr current_total 0
      else Some fr)"

text \<open>
  \<open>Count\<close> on the tables \<open>st\<close> of the object: \<open>None\<close> is a decrement loop that never
  returns. On an empty buffer it returns before the cumulative table is touched.
\<close>

definition Count :: "byte list \<Rightarrow> SymbolStats \<Rightarrow> SymbolStats option" where
  "Count data st =
     (if (of_nat (length data) :: u64) = 0 then Some (st\<lparr>freqs := tally data\<rparr>)
      else map_option with_cum
             (adjust (fold (scale_step (of_nat (length data))) [0..<256] (tally data, 0))))"

section \<open>rans.cpp: the encoder\<close>

record RansEncoderImpl =
  state :: u32
  buffer :: "byte list"
  stats :: SymbolStats

text \<open>The file-scope encoder object as the program starts: zero-initialised tables.\<close>

definition enc_impl0 :: RansEncoderImpl where
  "enc_impl0 = \<lparr>state = RANS_L, buffer = [],
                 stats = \<lparr>freqs = replicate 256 0, cum_freqs = replicate 257 0\<rparr>\<rparr>"

definition RansEncoder_Init :: "RansEncoderImpl \<Rightarrow> RansEncoderImpl" where
  "RansEncoder_Init e = e\<lparr>state := RANS_L, buffer := []\<rparr>"

definition BuildModel :: "byte list \<Rightarrow> RansEncoderImpl \<Rightarrow> RansEncoderImpl option" where
  "BuildModel data e = map_option (\<lambda>s. e\<lparr>stats := s\<rparr>) (Count data (stats e))"

text \<open>
  The renormalisation loop of \<open>Encode\<close>. It does not end when the bound
  \<open>(1u << (31 - PROB_BITS)) * freq\<close> is zero, so it is a partial function: \<open>None\<close> is
  a loop that never returns.
\<close>

partial_function (option) renorm_out :: "u32 \<Rightarrow> u32 \<Rightarrow> byte list \<Rightarrow> (u32 \<times> byte list) option" where
  "renorm_out freq st buf =
     (if st \<ge> push_bit (31 - PROB_BITS) 1 * freq
      then renorm_out freq (drop_bit 8 st) (buf @ [ucast (st AND 0xFF)])
      else Some (st, buf))"

declare renorm_out.simps [code]

definition Encode :: "byte \<Rightarrow> RansEncoderImpl \<Rightarrow> RansEncoderImpl option" where
  "Encode symbol e =
     (let freq = freqs (stats e) ! unat symbol;
          start = cum_freqs (stats e) ! unat symbol
      in case renorm_out freq (state e) (buffer e) of
           None \<Rightarrow> None
         | Some (st, buf) \<Rightarrow>
             Some (e\<lparr>state := push_bit PROB_BITS (st div freq) + st mod freq + start,
                     buffer := buf\<rparr>))"

definition RansEncoder_Flush :: "RansEncoderImpl \<Rightarrow> RansEncoderImpl" where
  "RansEncoder_Flush e =
     e\<lparr>buffer := buffer e @
          [ucast (state e AND 0xFF),
           ucast (drop_bit 8 (state e) AND 0xFF),
           ucast (drop_bit 16 (state e) AND 0xFF),
           ucast (drop_bit 24 (state e) AND 0xFF)]\<rparr>"

definition GetOutput :: "RansEncoderImpl \<Rightarrow> byte list" where
  "GetOutput e = buffer e"

definition GetModelData :: "RansEncoderImpl \<Rightarrow> byte list" where
  "GetModelData e =
     concat (map (\<lambda>i. let f = freqs (stats e) ! i
                       in [ucast (f AND 0xFF), ucast (drop_bit 8 f AND 0xFF)]) [0..<256])"

text \<open>Encoding a list of symbols in the order given.\<close>

fun encode_all :: "byte list \<Rightarrow> RansEncoderImpl \<Rightarrow> RansEncoderImpl option" where
  "encode_all [] e = Some e"
| "encode_all (s # ss) e = (case Encode s e of None \<Rightarrow> None | Some e1 \<Rightarrow> encode_all ss e1)"

section \<open>rans.cpp: the decoder\<close>

record RansDecoderImpl =
  d_state :: u32
  d_data :: "byte list"
  ptr :: nat
  d_stats :: SymbolStats

text \<open>
  The constructor. The tables of a fresh decoder are not initialised by the source; they
  are the parameter \<open>st0\<close>, and stay in place only when the model region is too short.
\<close>

definition RansDecoder_Init :: "SymbolStats \<Rightarrow> byte list \<Rightarrow> RansDecoderImpl" where
  "RansDecoder_Init st0 d =
     (if length d \<ge> 4
      then let p = length d - 4
           in \<lparr>d_state = ucast (d ! p) OR push_bit 8 (ucast (d ! (p + 1)))
                           OR push_bit 16 (ucast (d ! (p + 2))) OR push_bit 24 (ucast (d ! (p + 3))),
               d_data = d, ptr = p, d_stats = st0\<rparr>
      else \<lparr>d_state = RANS_L, d_data = d, ptr = length d, d_stats = st0\<rparr>)"

definition parse_model :: "byte list \<Rightarrow> u32 list" where
  "parse_model model_data =
     map (\<lambda>i. ucast (model_data ! (2 * i)) OR push_bit 8 (ucast (model_data ! (2 * i + 1))))
       [0..<256]"

definition SetModel :: "byte list \<Rightarrow> RansDecoderImpl \<Rightarrow> RansDecoderImpl" where
  "SetModel model_data d =
     (if length model_data < 512 then d
      else d\<lparr>d_stats := with_cum (parse_model model_data)\<rparr>)"

function find_symbol :: "u32 list \<Rightarrow> u32 \<Rightarrow> nat \<Rightarrow> nat" where
  "find_symbol cum slot i =
     (if i < 256
      then (if slot < cum ! (i + 1) then i else find_symbol cum slot (i + 1))
      else 0)"
  by pat_completeness auto
termination
  by (relation "measure (\<lambda>(cum, slot, i). 256 - i)") auto

declare find_symbol.simps [simp del]

function renorm_in :: "byte list \<Rightarrow> u32 \<Rightarrow> nat \<Rightarrow> u32 \<times> nat" where
  "renorm_in d st p =
     (if st < RANS_L \<and> p > 0
      then renorm_in d (push_bit 8 st OR ucast (d ! (p - 1))) (p - 1)
      else (st, p))"
  by pat_completeness auto
termination
  by (relation "measure (\<lambda>(d, st, p). p)") auto

declare renorm_in.simps [simp del]

definition Decode :: "RansDecoderImpl \<Rightarrow> byte \<times> RansDecoderImpl" where
  "Decode d =
     (let slot = d_state d AND (PROB_SCALE - 1);
          symbol = find_symbol (cum_freqs (d_stats d)) slot 0;
          freq = freqs (d_stats d) ! symbol;
          start = cum_freqs (d_stats d) ! symbol;
          st1 = drop_bit PROB_BITS (d_state d) * freq + slot - start
      in case renorm_in (d_data d) st1 (ptr d) of
           (st2, p2) \<Rightarrow> (of_nat symbol, d\<lparr>d_state := st2, ptr := p2\<rparr>))"

text \<open>Decoding a given number of symbols, in the order the decoder produces them.\<close>

fun decode_n :: "nat \<Rightarrow> RansDecoderImpl \<Rightarrow> byte list" where
  "decode_n 0 d = []"
| "decode_n (Suc n) d = (case Decode d of (s, d1) \<Rightarrow> s # decode_n n d1)"

text \<open>The decoder object after a given number of calls of \<open>Decode\<close>.\<close>

fun decoder_after :: "nat \<Rightarrow> RansDecoderImpl \<Rightarrow> RansDecoderImpl" where
  "decoder_after 0 d = d"
| "decoder_after (Suc n) d = decoder_after n (snd (Decode d))"

section \<open>compressor.cpp: the LZ77 parser\<close>

record Match =
  distance :: nat
  match_length :: nat

function match_len :: "byte list \<Rightarrow> nat \<Rightarrow> nat \<Rightarrow> nat \<Rightarrow> nat \<Rightarrow> nat" where
  "match_len data pos limit i len =
     (if pos + len < limit \<and> i + len < pos \<and> data ! (i + len) = data ! (pos + len)
      then match_len data pos limit i (len + 1)
      else len)"
  by pat_completeness auto
termination
  by (relation "measure (\<lambda>(data, pos, limit, i, len). limit - (pos + len))") auto

declare match_len.simps [simp del]

function search_loop :: "byte list \<Rightarrow> nat \<Rightarrow> nat \<Rightarrow> nat \<Rightarrow> nat \<times> nat \<Rightarrow> nat \<times> nat" where
  "search_loop data pos limit i (max_len, best_dist) =
     (if i < pos
      then (let len = match_len data pos limit i 0
            in search_loop data pos limit (i + 1)
                 (if len > max_len then (len, pos - i) else (max_len, best_dist)))
      else (max_len, best_dist))"
  by pat_completeness auto
termination
  by (relation "measure (\<lambda>(data, pos, limit, i, best). pos - i)") auto

declare search_loop.simps [simp del]

text \<open>\<open>pos - window_size\<close> on natural numbers is \<open>max(0, pos - window_size)\<close>.\<close>

definition FindLongestMatch :: "byte list \<Rightarrow> nat \<Rightarrow> nat \<Rightarrow> Match" where
  "FindLongestMatch data pos window_size =
     (case search_loop data pos (min (length data) (pos + 255)) (pos - window_size) (0, 0) of
        (max_len, best_dist) \<Rightarrow>
          if max_len < 3 then \<lparr>distance = 0, match_length = 0\<rparr>
          else \<lparr>distance = best_dist, match_length = max_len\<rparr>)"

function parse_loop ::
  "byte list \<Rightarrow> nat \<Rightarrow> byte list \<times> Match list \<times> bool list \<Rightarrow> byte list \<times> Match list \<times> bool list" where
  "parse_loop data pos (literals, matches, is_match) =
     (if pos < length data
      then (let m = FindLongestMatch data pos 32768
            in if match_length m \<ge> 3
               then parse_loop data (pos + match_length m)
                      (literals, matches @ [m], is_match @ [True])
               else parse_loop data (pos + 1) (literals @ [data ! pos], matches, is_match @ [False]))
      else (literals, matches, is_match))"
  by pat_completeness auto
termination
  by (relation "measure (\<lambda>(data, pos, acc). length data - pos)") auto

declare parse_loop.simps [simp del]

section \<open>compressor.cpp: Compress\<close>

definition pack_match :: "Match \<Rightarrow> byte list" where
  "pack_match m =
     [of_nat (distance m AND 0xFF), of_nat (drop_bit 8 (distance m) AND 0xFF),
      of_nat (match_length m AND 0xFF)]"

text \<open>A 32-bit field as the four bytes the little-endian host writes.\<close>

definition le32 :: "u32 \<Rightarrow> byte list" where
  "le32 x = [ucast x, ucast (drop_bit 8 x), ucast (drop_bit 16 x), ucast (drop_bit 24 x)]"

definition write_container ::
  "nat \<Rightarrow> byte list \<Rightarrow> byte list \<Rightarrow> byte list \<Rightarrow> byte list \<Rightarrow> byte list" where
  "write_container data_size rans_out flags packed_matches model_data =
     (let magic = (0x4D49444F :: u32);
          orig_size = (of_nat data_size :: u32);
          rans_size = (of_nat (length rans_out) :: u32);
          flags_size = (of_nat (length flags) :: u32);
          match_size = (of_nat (length packed_matches) :: u32);
          model_size = (of_nat (length model_data) :: u32)
      in le32 magic @ le32 orig_size @ le32 rans_size @ le32 flags_size @ le32 match_size
         @ le32 model_size
         @ take (unat rans_size) rans_out @ take (unat flags_size) flags
         @ take (unat match_size) packed_matches @ take (unat model_size) model_data)"

datatype compress_result = NoOutput | Artifact "byte list"

text \<open>
  \<open>Compress\<close> on the bytes of the input file. \<open>Some NoOutput\<close> is the silent return on an
  empty input; \<open>None\<close> is a run that never returns.
\<close>

definition Compress :: "byte list \<Rightarrow> compress_result option" where
  "Compress data =
     (if data = [] then Some NoOutput
      else case BuildModel data (RansEncoder_Init enc_impl0) of
             None \<Rightarrow> None
           | Some rans0 \<Rightarrow>
               (case parse_loop data 0 ([], [], []) of
                  (literals, matches, is_match) \<Rightarrow>
                    (case encode_all (rev literals) rans0 of
                       None \<Rightarrow> None
                     | Some rans1 \<Rightarrow>
                         Some (Artifact
                           (write_container (length data)
                              (GetOutput (RansEncoder_Flush rans1))
                              (GetData (BitWriter_Flush (fold WriteBit is_match BitWriter_init)))
                              (concat (map pack_match matches))
                              (GetModelData (RansEncoder_Flush rans1)))))))"

section \<open>compressor.cpp: Decompress\<close>

datatype decode_error = MatchUnderflow | InvalidDistance

text \<open>
  What \<open>Decompress\<close> leaves behind: nothing after a bad magic number, otherwise the bytes
  written to the output file, with the error it reported on the way if any.
\<close>

datatype decompress_result = BadMagic | Written "byte list" "decode_error option"

definition rd32 :: "byte list \<Rightarrow> nat \<Rightarrow> u32" where
  "rd32 f off =
     ucast (f ! off) OR push_bit 8 (ucast (f ! (off + 1)))
       OR push_bit 16 (ucast (f ! (off + 2))) OR push_bit 24 (ucast (f ! (off + 3)))"

text \<open>
  A region is a zero-filled vector of the declared size; the read fills it with what the
  file still holds.
\<close>

definition read_region :: "byte list \<Rightarrow> nat \<Rightarrow> nat \<Rightarrow> byte list" where
  "read_region f off n = take n (drop off f) @ replicate (n - length (take n (drop off f))) 0"

record DecompressState =
  output_buf :: "byte list"
  flags_in :: BitReader
  match_ptr :: nat
  rans :: RansDecoderImpl

function copy_loop :: "byte list \<Rightarrow> nat \<Rightarrow> nat \<Rightarrow> nat \<Rightarrow> byte list" where
  "copy_loop out start i len =
     (if i < len then copy_loop (out @ [out ! (start + i)]) start (i + 1) len else out)"
  by pat_completeness auto
termination
  by (relation "measure (\<lambda>(out, start, i, len). len - i)") auto

declare copy_loop.simps [simp del]

datatype step_result = Continue DecompressState | Break decode_error DecompressState

text \<open>The fields of the match record at \<open>match_ptr\<close>.\<close>

definition record_dist :: "byte list \<Rightarrow> nat \<Rightarrow> u16" where
  "record_dist match_data p = ucast (match_data ! p) OR push_bit 8 (ucast (match_data ! (p + 1)))"

definition record_len :: "byte list \<Rightarrow> nat \<Rightarrow> byte" where
  "record_len match_data p = match_data ! (p + 2)"

text \<open>One turn of the emit loop.\<close>

definition emit_step :: "byte list \<Rightarrow> DecompressState \<Rightarrow> step_result" where
  "emit_step match_data s =
     (case ReadBit (flags_in s) of (flag, fl1) \<Rightarrow>
        if \<not> flag
        then (case Decode (rans s) of (lit, r1) \<Rightarrow>
                Continue (s\<lparr>output_buf := output_buf s @ [lit], flags_in := fl1, rans := r1\<rparr>))
        else if match_ptr s + 3 > length match_data
        then Break MatchUnderflow (s\<lparr>flags_in := fl1\<rparr>)
        else if unat (record_dist match_data (match_ptr s)) > length (output_buf s)
        then Break InvalidDistance (s\<lparr>flags_in := fl1, match_ptr := match_ptr s + 3\<rparr>)
        else Continue
               (s\<lparr>output_buf :=
                    copy_loop (output_buf s)
                      (length (output_buf s) - unat (record_dist match_data (match_ptr s)))
                      0 (unat (record_len match_data (match_ptr s))),
                  flags_in := fl1, match_ptr := match_ptr s + 3\<rparr>))"

lemma length_copy_loop: "length (copy_loop out start i len) = length out + (len - i)"
proof (induction out start i len rule: copy_loop.induct)
  case (1 out start i len)
  then show ?case by (subst copy_loop.simps) auto
qed

lemma emit_step_Continue:
  assumes "emit_step match_data s = Continue s1"
  shows "length (output_buf s) < length (output_buf s1)
       \<or> (length (output_buf s) \<le> length (output_buf s1)
          \<and> match_ptr s1 = match_ptr s + 3 \<and> match_ptr s + 3 \<le> length match_data)"
  using assms
  by (auto simp: emit_step_def length_copy_loop split: prod.splits if_splits)

text \<open>
  The emit loop: it runs while the output is shorter than \<open>orig_size\<close>, and a \<open>break\<close>
  leaves it with the output as it stands.
\<close>

function emit_loop ::
  "nat \<Rightarrow> byte list \<Rightarrow> DecompressState \<Rightarrow> byte list \<times> decode_error option" where
  "emit_loop orig_size match_data s =
     (if length (output_buf s) < orig_size
      then (case emit_step match_data s of
              Continue s1 \<Rightarrow> emit_loop orig_size match_data s1
            | Break e s1 \<Rightarrow> (output_buf s1, Some e))
      else (output_buf s, None))"
  by pat_completeness auto
termination
proof (relation "measures [\<lambda>(orig_size, match_data, s). orig_size - length (output_buf s),
                          \<lambda>(orig_size, match_data, s). length match_data - match_ptr s]")
  show "wf (measures [\<lambda>(orig_size, match_data, s). orig_size - length (output_buf s),
                      \<lambda>(orig_size, match_data, s). length match_data - match_ptr s])"
    by simp
next
  fix orig_size :: nat and match_data s s1
  assume a: "length (output_buf s) < orig_size" and b: "emit_step match_data s = Continue s1"
  from emit_step_Continue [OF b] a
  show "((orig_size, match_data, s1), (orig_size, match_data, s))
          \<in> measures [\<lambda>(orig_size, match_data, s). orig_size - length (output_buf s),
                       \<lambda>(orig_size, match_data, s). length match_data - match_ptr s]"
    by auto
qed

declare emit_loop.simps [simp del]

text \<open>The decoder over the four regions of a container whose header has been read.\<close>

definition decode_regions ::
  "SymbolStats \<Rightarrow> u32 \<Rightarrow> byte list \<Rightarrow> byte list \<Rightarrow> byte list \<Rightarrow> byte list \<Rightarrow> decompress_result" where
  "decode_regions st0 orig_size rans_data flags_data match_data model_data =
     (case emit_loop (unat orig_size) match_data
             \<lparr>output_buf = [], flags_in = BitReader_init flags_data, match_ptr = 0,
              rans = SetModel model_data (RansDecoder_Init st0 rans_data)\<rparr> of
        (out, err) \<Rightarrow> Written out err)"

text \<open>
  \<open>Decompress\<close> on the bytes of the input file. The source reads the six header words
  without looking at the state of the stream: on a file that ends inside the header it
  works on indeterminate values, which is \<open>None\<close> here.
\<close>

definition Decompress :: "SymbolStats \<Rightarrow> byte list \<Rightarrow> decompress_result option" where
  "Decompress st0 f =
     (if length f < 4 then None
      else if rd32 f 0 \<noteq> 0x4D49444F then Some BadMagic
      else if length f < 24 then None
      else Some (decode_regions st0 (rd32 f 4)
             (read_region f 24 (unat (rd32 f 8)))
             (read_region f (24 + unat (rd32 f 8)) (unat (rd32 f 12)))
             (read_region f (24 + unat (rd32 f 8) + unat (rd32 f 12)) (unat (rd32 f 16)))
             (read_region f (24 + unat (rd32 f 8) + unat (rd32 f 12) + unat (rd32 f 16))
                (unat (rd32 f 20)))))"

section \<open>Notions of the statements\<close>

text \<open>
  A well-formed model: 256 frequencies with total \<open>PROB_SCALE\<close>, and the cumulative table
  their prefix sums.
\<close>

definition model_ok :: "SymbolStats \<Rightarrow> bool" where
  "model_ok st \<longleftrightarrow>
     length (freqs st) = 256 \<and> sum_list (map unat (freqs st)) = 4096
     \<and> cum_freqs st = build_cum (freqs st)"

text \<open>
  The match tokens of a parse, each with the number of input bytes the tokens before it
  consumed: a literal consumes one byte, a match its length.
\<close>

fun match_positions :: "bool list \<Rightarrow> Match list \<Rightarrow> nat \<Rightarrow> (nat \<times> Match) list" where
  "match_positions [] ms pos = []"
| "match_positions (True # fs) [] pos = []"
| "match_positions (True # fs) (m # ms) pos = (pos, m) # match_positions fs ms (pos + match_length m)"
| "match_positions (False # fs) ms pos = match_positions fs ms (pos + 1)"

fun consumed :: "bool list \<Rightarrow> Match list \<Rightarrow> nat \<Rightarrow> nat" where
  "consumed [] ms pos = pos"
| "consumed (True # fs) [] pos = pos"
| "consumed (True # fs) (m # ms) pos = consumed fs ms (pos + match_length m)"
| "consumed (False # fs) ms pos = consumed fs ms (pos + 1)"

text \<open>
  What the candidate search holds at every turn: no match yet, or a best match that starts
  inside the window, ends before the current position and stays below the limit.
\<close>

definition match_ok :: "nat \<Rightarrow> nat \<Rightarrow> nat \<Rightarrow> nat \<times> nat \<Rightarrow> bool" where
  "match_ok pos limit start = (\<lambda>(max_len, best_dist).
     (max_len = 0 \<and> best_dist = 0)
     \<or> (1 \<le> best_dist \<and> best_dist \<le> pos - start \<and> max_len \<le> best_dist \<and> pos + max_len \<le> limit))"

text \<open>The bounds of a match token that was emitted after \<open>p\<close> bytes of input.\<close>

definition token_ok :: "nat \<times> Match \<Rightarrow> bool" where
  "token_ok = (\<lambda>(p, m). 1 \<le> distance m \<and> distance m \<le> 32768
                 \<and> 3 \<le> match_length m \<and> match_length m \<le> 255
                 \<and> distance m \<le> p \<and> match_length m \<le> distance m)"

text \<open>
  What the parse loop holds at every turn: the flags and the matches agree, the tokens
  so far consumed \<open>pos\<close> bytes, and every match so far is within its bounds.
\<close>

definition parse_inv :: "nat \<Rightarrow> Match list \<Rightarrow> bool list \<Rightarrow> bool" where
  "parse_inv pos ms fs \<longleftrightarrow>
     length (filter id fs) = length ms \<and> consumed fs ms 0 = pos
     \<and> list_all token_ok (match_positions fs ms 0) \<and> map snd (match_positions fs ms 0) = ms"

text \<open>A loop state after one literal \<open>A\<close>, with the flag reader at the second bit.\<close>

definition state_after_literal :: "byte list \<Rightarrow> DecompressState" where
  "state_after_literal fl =
     \<lparr>output_buf = [0x41], flags_in = \<lparr>br_data = fl, byte_index = 0, bit_index = 1\<rparr>,
      match_ptr = 0, rans = RansDecoder_Init (stats enc_impl0) []\<rparr>"

text \<open>The model that \<open>Count\<close> builds from the bytes 1, 2, 3.\<close>

definition model_123 :: SymbolStats where
  "model_123 = with_cum (1 # 1365 # 1365 # 1365 # replicate 252 0)"

text \<open>The model that \<open>Count\<close> builds from the six bytes 1 to 6.\<close>

definition model_6 :: SymbolStats where
  "model_6 = with_cum (4 # 682 # 682 # 682 # 682 # 682 # 682 # replicate 249 0)"

text \<open>The model that \<open>Count\<close> builds from the seven bytes 6, 7, 2, 5, 3, 3, 7.\<close>

definition model_7 :: SymbolStats where
  "model_7 = with_cum (1 # 0 # 585 # 1170 # 0 # 585 # 585 # 1170 # replicate 248 0)"

text \<open>A 16-bit value as two bytes, the low byte first.\<close>

definition le16 :: "u16 \<Rightarrow> byte list" where
  "le16 x = [ucast x, ucast (drop_bit 8 x)]"

text \<open>The model that \<open>Count\<close> builds from 64 bytes all equal to \<open>0x58\<close>.\<close>

definition model_X :: SymbolStats where
  "model_X = with_cum (replicate 88 0 @ 4096 # replicate 167 0)"

section \<open>The bit stream\<close>

lemma Suc_div8_wrap: "Suc (pos mod 8) = 8 \<Longrightarrow> Suc pos div 8 = Suc (pos div 8) \<and> Suc pos mod 8 = 0"
  by (simp add: mod_Suc div_Suc)

lemma Suc_div8_stay:
  "Suc (pos mod 8) \<noteq> 8 \<Longrightarrow> Suc pos div 8 = pos div 8 \<and> Suc pos mod 8 = Suc (pos mod 8)"
  by (simp add: mod_Suc div_Suc)

lemma div8_step: "0 < (n::nat) \<Longrightarrow> Suc ((n - 8 + 7) div 8) = (n + 7) div 8"
proof (cases "n < 8")
  case True
  assume "0 < n"
  with True have "(n + 7) div 8 = 1" by simp
  with True show ?thesis by simp
next
  case False
  then have "n - 8 + 7 + 8 = n + 7" by simp
  then have "(n + 7) div 8 = Suc ((n - 8 + 7) div 8)"
    by (metis add.commute div_add_self1 zero_neq_numeral Suc_eq_plus1 add.left_commute)
  then show ?thesis by simp
qed

lemma div8_shift: "\<not> i < 8 \<Longrightarrow> i div 8 = Suc ((i - 8) div 8) \<and> (i - 8) mod 8 = i mod (8::nat)"
proof -
  assume "\<not> i < 8"
  then have i: "i = (i - 8) + 8" by simp
  have "((i - 8) + 8) div 8 = Suc ((i - 8) div 8)" "((i - 8) + 8) mod 8 = (i - 8) mod 8"
    by simp_all
  with i show ?thesis by simp
qed

lemma byte_msb_first_append:
  "byte_msb_first k (p @ q) = byte_msb_first k p OR byte_msb_first (k + length p) q"
  by (induction p arbitrary: k) (simp_all add: or.assoc)

lemma bit_byte_msb_first:
  "k + length p \<le> 8 \<Longrightarrow>
   bit (byte_msb_first k p) n \<longleftrightarrow> (\<exists>i<length p. p ! i \<and> n = 7 - (k + i))"
proof (induction p arbitrary: k)
  case Nil
  then show ?case by simp
next
  case (Cons b p)
  have "(\<exists>i<length (b # p). (b # p) ! i \<and> n = 7 - (k + i))
        \<longleftrightarrow> (b \<and> n = 7 - k) \<or> (\<exists>i<length p. p ! i \<and> n = 7 - (Suc k + i))"
    by (auto simp: less_Suc_eq_0_disj)
  moreover have "bit (byte_msb_first (k + 1) p) n \<longleftrightarrow> (\<exists>i<length p. p ! i \<and> n = 7 - (Suc k + i))"
    using Cons.IH [of "k + 1"] Cons.prems by simp
  moreover have "bit (push_bit (7 - k) 1 :: byte) n \<longleftrightarrow> n = 7 - k"
    using Cons.prems by (auto simp: bit_exp_iff possible_bit_word)
  ultimately show ?case
    by (simp add: bit_or_iff)
qed

lemma WriteBit_pending:
  assumes "k = length p" "k < 8"
  shows "WriteBit b \<lparr>bw_buffer = buf, current_byte = byte_msb_first 0 p, bit_count = k\<rparr> =
         (if length p = 7
          then \<lparr>bw_buffer = buf @ [byte_msb_first 0 (p @ [b])], current_byte = 0, bit_count = 0\<rparr>
          else \<lparr>bw_buffer = buf, current_byte = byte_msb_first 0 (p @ [b]), bit_count = length p + 1\<rparr>)"
  using assms by (simp add: WriteBit_def byte_msb_first_append Let_def)

lemma pack_short: "length p < 8 \<Longrightarrow> pack_msb_first p = (if p = [] then [] else [byte_msb_first 0 p])"
  by (subst pack_msb_first.simps) (simp add: pack_msb_first.simps [of "[]"])

lemma pack_full: "length p = 8 \<Longrightarrow> pack_msb_first (p @ bs) = byte_msb_first 0 p # pack_msb_first bs"
  by (subst pack_msb_first.simps) auto

lemma write_pending:
  "length p < 8 \<Longrightarrow>
   GetData (BitWriter_Flush (fold WriteBit bs
      \<lparr>bw_buffer = buf, current_byte = byte_msb_first 0 p, bit_count = length p\<rparr>))
   = buf @ pack_msb_first (p @ bs)"
proof (induction bs arbitrary: buf p)
  case Nil
  then show ?case
    by (simp add: GetData_def BitWriter_Flush_def pack_short)
next
  case (Cons b bs)
  show ?case
  proof (cases "length p = 7")
    case True
    have "fold WriteBit (b # bs) \<lparr>bw_buffer = buf, current_byte = byte_msb_first 0 p, bit_count = length p\<rparr>
        = fold WriteBit bs \<lparr>bw_buffer = buf @ [byte_msb_first 0 (p @ [b])],
                             current_byte = byte_msb_first 0 [], bit_count = length ([] :: bool list)\<rparr>"
      using True by (simp add: WriteBit_pending)
    moreover have "pack_msb_first (p @ b # bs) = byte_msb_first 0 (p @ [b]) # pack_msb_first bs"
      using pack_full [of "p @ [b]" bs] True by simp
    ultimately show ?thesis
      using Cons.IH [of "[]" "buf @ [byte_msb_first 0 (p @ [b])]"] by simp
  next
    case False
    with Cons.prems have "length (p @ [b]) < 8" by simp
    from Cons.IH [OF this, of buf] False Cons.prems show ?thesis
      by (simp add: WriteBit_pending)
  qed
qed

lemma write_bits_of_pack: "write_bits_of bs = pack_msb_first bs"
  using write_pending [of "[]" bs "[]"] by (simp add: write_bits_of_def BitWriter_init_def)

lemma length_pack: "length (pack_msb_first bs) = (length bs + 7) div 8"
proof (induction bs rule: pack_msb_first.induct)
  case (1 bs)
  show ?case
  proof (cases "bs = []")
    case True
    then show ?thesis by (simp add: pack_msb_first.simps)
  next
    case False
    then have "length bs > 0" by simp
    then have "Suc ((length bs - 8 + 7) div 8) = (length bs + 7) div 8" by (rule div8_step)
    with 1 False show ?thesis
      by (subst pack_msb_first.simps) simp
  qed
qed

lemma nth_pack:
  "i < length bs \<Longrightarrow> bit (pack_msb_first bs ! (i div 8)) (7 - i mod 8) = bs ! i"
proof (induction bs arbitrary: i rule: pack_msb_first.induct)
  case (1 bs)
  then have ne: "bs \<noteq> []" by auto
  show ?case
  proof (cases "i < 8")
    case True
    have "bit (byte_msb_first 0 (take 8 bs)) (7 - i) \<longleftrightarrow>
          (\<exists>j<length (take 8 bs). take 8 bs ! j \<and> 7 - i = 7 - (0 + j))"
      by (rule bit_byte_msb_first) simp
    also have "\<dots> \<longleftrightarrow> bs ! i"
    proof
      assume "\<exists>j<length (take 8 bs). take 8 bs ! j \<and> 7 - i = 7 - (0 + j)"
      then obtain j where j: "j < length (take 8 bs)" "take 8 bs ! j" "7 - i = 7 - j" by auto
      then have "j = i" using True by auto
      with j show "bs ! i" by simp
    next
      assume "bs ! i"
      with True 1(2) show "\<exists>j<length (take 8 bs). take 8 bs ! j \<and> 7 - i = 7 - (0 + j)"
        by (intro exI [of _ i]) simp
    qed
    finally show ?thesis
      using True ne by (subst pack_msb_first.simps) simp
  next
    case False
    then have "i - 8 < length (drop 8 bs)" using 1(2) by simp
    from 1(1) [OF ne this] False have "bit (pack_msb_first (drop 8 bs) ! ((i - 8) div 8)) (7 - (i - 8) mod 8) = bs ! i"
      using 1(2) by simp
    moreover have "i div 8 = Suc ((i - 8) div 8)" "(i - 8) mod 8 = i mod 8"
      using div8_shift [OF False] by simp_all
    ultimately show ?thesis
      using ne by (subst pack_msb_first.simps) simp
  qed
qed

lemma drop_bit_and_1: "(drop_bit n (x :: byte) AND 1 \<noteq> 0) = bit x n"
  by (simp add: bit_iff_odd_drop_bit and_one_eq mod_2_eq_odd)

lemma ReadBit_pack:
  assumes "pos < length bs"
  shows "ReadBit \<lparr>br_data = pack_msb_first bs, byte_index = pos div 8, bit_index = pos mod 8\<rparr>
       = (bs ! pos, \<lparr>br_data = pack_msb_first bs, byte_index = Suc pos div 8, bit_index = Suc pos mod 8\<rparr>)"
proof -
  have "pos div 8 < length (pack_msb_first bs)"
    using assms by (simp add: length_pack)
  then show ?thesis
    using nth_pack [OF assms] Suc_div8_wrap [of pos] Suc_div8_stay [of pos]
    by (simp add: ReadBit_def drop_bit_and_1 Let_def)
qed

lemma read_n_pack:
  "pos + n \<le> length bs \<Longrightarrow>
   read_n n \<lparr>br_data = pack_msb_first bs, byte_index = pos div 8, bit_index = pos mod 8\<rparr>
   = take n (drop pos bs)"
proof (induction n arbitrary: pos)
  case 0
  then show ?case by simp
next
  case (Suc n)
  then have "pos < length bs" "Suc pos + n \<le> length bs" by simp_all
  with Suc.IH [of "Suc pos"] show ?case
    by (simp add: ReadBit_pack take_Suc_conv_app_nth Cons_nth_drop_Suc [symmetric])
qed

text \<open>
  Claim C7. For every bit sequence \<open>B\<close>, writing \<open>B\<close> bit by bit with \<open>WriteBit\<close> and then
  \<open>Flush\<close>, and reading \<open>|B|\<close> bits back with \<open>ReadBit\<close> over the bytes produced, yields \<open>B\<close>
  unchanged; and the bytes produced are \<open>B\<close> packed MSB-first (bit 0 of the sequence in bit 7
  of byte 0), the last byte padded with zeros in its low-order bits.
\<close>

theorem bit_order_roundtrip:
  "read_n (length B) (BitReader_init (write_bits_of B)) = B \<and> write_bits_of B = pack_msb_first B"
  using read_n_pack [of 0 "length B" B] by (simp add: write_bits_of_pack BitReader_init_def)

section \<open>Errors of the emit loop\<close>

lemma prefix_copy_loop: "prefix out (copy_loop out start i len)"
proof (induction out start i len rule: copy_loop.induct)
  case (1 out start i len)
  show ?case
  proof (cases "i < len")
    case True
    from 1 [OF True] have "prefix (out @ [out ! (start + i)]) (copy_loop out start i len)"
      using True by (subst copy_loop.simps) simp
    then show ?thesis by (rule append_prefixD)
  next
    case False
    then show ?thesis by (subst copy_loop.simps) simp
  qed
qed

lemma emit_step_Continue_prefix:
  "emit_step match_data s = Continue s1 \<Longrightarrow> prefix (output_buf s) (output_buf s1)"
  by (auto simp: emit_step_def prefix_copy_loop split: prod.splits if_splits)

lemma emit_step_Break_output:
  "emit_step match_data s = Break e s1 \<Longrightarrow> output_buf s1 = output_buf s"
  by (auto simp: emit_step_def split: prod.splits if_splits)

lemma emit_loop_prefix:
  "emit_loop orig_size match_data s = (out, err) \<Longrightarrow> prefix (output_buf s) out"
proof (induction orig_size match_data s rule: emit_loop.induct)
  case (1 orig_size match_data s)
  show ?case
  proof (cases "length (output_buf s) < orig_size")
    case False
    with 1(2) show ?thesis by (simp add: emit_loop.simps [of orig_size match_data s])
  next
    case True
    show ?thesis
    proof (cases "emit_step match_data s")
      case (Continue s1)
      with True 1(2) have "emit_loop orig_size match_data s1 = (out, err)"
        by (simp add: emit_loop.simps [of orig_size match_data s])
      from 1(1) [OF True Continue this] emit_step_Continue_prefix [OF Continue]
      show ?thesis by (rule prefix_order.trans [rotated])
    next
      case (Break e s1)
      with True 1(2) emit_step_Break_output [OF Break] show ?thesis
        by (simp add: emit_loop.simps [of orig_size match_data s])
    qed
  qed
qed

lemma emit_loop_error_partial:
  "emit_loop orig_size match_data s = (out, Some e) \<Longrightarrow> length out < orig_size"
proof (induction orig_size match_data s rule: emit_loop.induct)
  case (1 orig_size match_data s)
  show ?case
  proof (cases "length (output_buf s) < orig_size")
    case False
    with 1(2) show ?thesis by (simp add: emit_loop.simps [of orig_size match_data s])
  next
    case True
    show ?thesis
    proof (cases "emit_step match_data s")
      case (Continue s1)
      with True 1(2) have "emit_loop orig_size match_data s1 = (out, Some e)"
        by (simp add: emit_loop.simps [of orig_size match_data s])
      from 1(1) [OF True Continue this] show ?thesis .
    next
      case (Break e' s1)
      with True 1(2) emit_step_Break_output [OF Break] show ?thesis
        by (auto simp add: emit_loop.simps [of orig_size match_data s])
    qed
  qed
qed

text \<open>
  Claim C9. During decompression, whenever the distance of a match record is strictly
  greater than the number of output bytes emitted so far, the decoder fails with an
  invalid-distance error: the turn of the loop that reads the record breaks with
  \<open>InvalidDistance\<close>, and the emit loop ends there with the output as it stood, no further
  token emitted.
\<close>

theorem invalid_distance_aborts:
  assumes "length (output_buf s) < orig_size"
    and "fst (ReadBit (flags_in s))"
    and "match_ptr s + 3 \<le> length match_data"
    and "length (output_buf s) < unat (record_dist match_data (match_ptr s))"
  shows "emit_step match_data s =
           Break InvalidDistance
             (s\<lparr>flags_in := snd (ReadBit (flags_in s)), match_ptr := match_ptr s + 3\<rparr>)
         \<and> emit_loop orig_size match_data s = (output_buf s, Some InvalidDistance)"
proof -
  have st: "emit_step match_data s =
           Break InvalidDistance
             (s\<lparr>flags_in := snd (ReadBit (flags_in s)), match_ptr := match_ptr s + 3\<rparr>)"
    using assms by (cases "ReadBit (flags_in s)") (simp add: emit_step_def)
  with assms(1) show ?thesis
    by (simp add: emit_loop.simps [of orig_size match_data s])
qed

theorem invalid_distance_aborts_witness:
  "length (output_buf (state_after_literal [0x40])) < 4
   \<and> fst (ReadBit (flags_in (state_after_literal [0x40])))
   \<and> match_ptr (state_after_literal [0x40]) + 3 \<le> length [5, 0, 3 :: byte]
   \<and> length (output_buf (state_after_literal [0x40]))
       < unat (record_dist [5, 0, 3] (match_ptr (state_after_literal [0x40])))
   \<and> emit_loop 4 [5, 0, 3] (state_after_literal [0x40]) = ([0x41], Some InvalidDistance)"
proof -
  have h1: "length (output_buf (state_after_literal [0x40])) < 4"
    by (simp add: state_after_literal_def)
  have h2: "fst (ReadBit (flags_in (state_after_literal [0x40])))"
    by (simp add: state_after_literal_def ReadBit_def)
  have h3: "match_ptr (state_after_literal [0x40]) + 3 \<le> length [5, 0, 3 :: byte]"
    by (simp add: state_after_literal_def)
  have h4: "length (output_buf (state_after_literal [0x40]))
       < unat (record_dist [5, 0, 3] (match_ptr (state_after_literal [0x40])))"
    by (simp add: state_after_literal_def record_dist_def)
  from invalid_distance_aborts [OF h1 h2 h3 h4] h1 h2 h3 h4 show ?thesis
    by (simp add: state_after_literal_def)
qed

text \<open>
  Claim C10. When the emit loop hits an error (the match region exhausted before the
  output is complete, or an invalid distance), it stops, but the bytes reconstructed so far
  are neither discarded nor rolled back: the loop returns the output as it stands at the
  break; whatever a loop state holds is a prefix of what a run from it returns with an
  error, and that output is shorter than \<open>orig_size\<close>; and what the loop returns is what is
  written out.
\<close>

theorem decode_error_keeps_partial_output:
  "(length (output_buf s) < orig_size \<and> emit_step match_data s = Break e s1
      \<longrightarrow> emit_loop orig_size match_data s = (output_buf s, Some e))
   \<and> (emit_loop orig_size match_data s = (out, Some e)
      \<longrightarrow> prefix (output_buf s) out \<and> length out < orig_size)
   \<and> decode_regions st0 w rans_data flags_data md model_data =
       Written
         (fst (emit_loop (unat w) md
            \<lparr>output_buf = [], flags_in = BitReader_init flags_data, match_ptr = 0,
              rans = SetModel model_data (RansDecoder_Init st0 rans_data)\<rparr>))
         (snd (emit_loop (unat w) md
            \<lparr>output_buf = [], flags_in = BitReader_init flags_data, match_ptr = 0,
              rans = SetModel model_data (RansDecoder_Init st0 rans_data)\<rparr>))"
proof (intro conjI impI)
  assume "length (output_buf s) < orig_size \<and> emit_step match_data s = Break e s1"
  then show "emit_loop orig_size match_data s = (output_buf s, Some e)"
    using emit_step_Break_output [of match_data s e s1]
    by (simp add: emit_loop.simps [of orig_size match_data s])
next
  assume "emit_loop orig_size match_data s = (out, Some e)"
  then show "prefix (output_buf s) out" by (rule emit_loop_prefix)
next
  assume "emit_loop orig_size match_data s = (out, Some e)"
  then show "length out < orig_size" by (rule emit_loop_error_partial)
next
  show "decode_regions st0 w rans_data flags_data md model_data =
       Written
         (fst (emit_loop (unat w) md
            \<lparr>output_buf = [], flags_in = BitReader_init flags_data, match_ptr = 0,
              rans = SetModel model_data (RansDecoder_Init st0 rans_data)\<rparr>))
         (snd (emit_loop (unat w) md
            \<lparr>output_buf = [], flags_in = BitReader_init flags_data, match_ptr = 0,
              rans = SetModel model_data (RansDecoder_Init st0 rans_data)\<rparr>))"
    by (simp add: decode_regions_def split: prod.splits)
qed

theorem decode_error_keeps_partial_output_witness:
  "emit_step [] (state_after_literal [0x40, 0])
     = Break MatchUnderflow
         ((state_after_literal [0x40, 0])\<lparr>flags_in := \<lparr>br_data = [0x40, 0], byte_index = 0, bit_index = 2\<rparr>\<rparr>)
   \<and> emit_loop 4 [] (state_after_literal [0x40, 0]) = ([0x41], Some MatchUnderflow)
   \<and> prefix (output_buf (state_after_literal [0x40, 0])) [0x41]
   \<and> length [0x41 :: byte] < 4"
proof -
  have st: "emit_step [] (state_after_literal [0x40, 0])
     = Break MatchUnderflow
         ((state_after_literal [0x40, 0])\<lparr>flags_in := \<lparr>br_data = [0x40, 0], byte_index = 0, bit_index = 2\<rparr>\<rparr>)"
    by (simp add: emit_step_def state_after_literal_def ReadBit_def)
  have len: "length (output_buf (state_after_literal [0x40, 0])) < 4"
    by (simp add: state_after_literal_def)
  have out: "output_buf (state_after_literal [0x40, 0]) = [0x41]"
    by (simp add: state_after_literal_def)
  from decode_error_keeps_partial_output
         [of "state_after_literal [0x40, 0]" 4 "[]" MatchUnderflow _ "[0x41]"] st len out
  show ?thesis by simp
qed

section \<open>The matches of the LZ77 parser\<close>

lemma match_len_ge: "len \<le> match_len data pos limit i len"
proof (induction data pos limit i len rule: match_len.induct)
  case (1 data pos limit i len)
  then show ?case by (subst match_len.simps) auto
qed

lemma match_len_src: "i + len \<le> pos \<Longrightarrow> i + match_len data pos limit i len \<le> pos"
proof (induction data pos limit i len rule: match_len.induct)
  case (1 data pos limit i len)
  then show ?case by (subst match_len.simps) auto
qed

lemma match_len_limit: "pos + len \<le> limit \<Longrightarrow> pos + match_len data pos limit i len \<le> limit"
proof (induction data pos limit i len rule: match_len.induct)
  case (1 data pos limit i len)
  then show ?case by (subst match_len.simps) auto
qed

lemma search_loop_ok:
  "start \<le> i \<Longrightarrow> pos \<le> limit \<Longrightarrow> match_ok pos limit start best
   \<Longrightarrow> match_ok pos limit start (search_loop data pos limit i best)"
proof (induction data pos limit i best rule: search_loop.induct)
  case (1 data pos limit i max_len best_dist)
  show ?case
  proof (cases "i < pos")
    case False
    with 1(4) show ?thesis by (subst search_loop.simps) simp
  next
    case True
    let ?len = "match_len data pos limit i 0"
    let ?best = "if ?len > max_len then (?len, pos - i) else (max_len, best_dist)"
    have "i + ?len \<le> pos" using True by (intro match_len_src) simp
    moreover have "pos + ?len \<le> limit" using 1(3) by (intro match_len_limit) simp
    ultimately have "match_ok pos limit start ?best"
      using 1(2,4) True by (auto simp: match_ok_def)
    with 1(1) [OF True] 1(2,3) have "match_ok pos limit start (search_loop data pos limit (i + 1) ?best)"
      by simp
    with True show ?thesis by (subst search_loop.simps) (simp add: Let_def)
  qed
qed

lemma FindLongestMatch_bounds:
  assumes "pos < length data" and "3 \<le> match_length (FindLongestMatch data pos w)"
  shows "1 \<le> distance (FindLongestMatch data pos w)
       \<and> distance (FindLongestMatch data pos w) \<le> w
       \<and> distance (FindLongestMatch data pos w) \<le> pos
       \<and> match_length (FindLongestMatch data pos w) \<le> 255
       \<and> match_length (FindLongestMatch data pos w) \<le> distance (FindLongestMatch data pos w)
       \<and> pos + match_length (FindLongestMatch data pos w) \<le> length data"
proof -
  let ?limit = "min (length data) (pos + 255)"
  obtain ml bd where r: "search_loop data pos ?limit (pos - w) (0, 0) = (ml, bd)"
    by (cases "search_loop data pos ?limit (pos - w) (0, 0)")
  have "match_ok pos ?limit (pos - w) (search_loop data pos ?limit (pos - w) (0, 0))"
    using assms(1) by (intro search_loop_ok) (simp_all add: match_ok_def)
  with r have ok: "match_ok pos ?limit (pos - w) (ml, bd)" by simp
  from assms(2) r have "3 \<le> ml" and m: "FindLongestMatch data pos w = \<lparr>distance = bd, match_length = ml\<rparr>"
    by (auto simp: FindLongestMatch_def split: if_splits)
  with ok show ?thesis
    by (auto simp: match_ok_def)
qed

lemma match_positions_append:
  "length (filter id fs) = length ms \<Longrightarrow>
   match_positions (fs @ gs) (ms @ ns) p = match_positions fs ms p @ match_positions gs ns (consumed fs ms p)"
  by (induction fs ms p rule: match_positions.induct) simp_all

lemma consumed_append:
  "length (filter id fs) = length ms \<Longrightarrow>
   consumed (fs @ gs) (ms @ ns) p = consumed gs ns (consumed fs ms p)"
  by (induction fs ms p rule: consumed.induct) simp_all

lemma parse_loop_inv:
  "parse_inv pos ms fs \<Longrightarrow> parse_loop data pos (ls, ms, fs) = (ls', ms', fs')
   \<Longrightarrow> list_all token_ok (match_positions fs' ms' 0) \<and> map snd (match_positions fs' ms' 0) = ms'"
proof (induction data pos "(ls, ms, fs)" arbitrary: ls ms fs rule: parse_loop.induct)
  case (1 data pos ls ms fs)
  show ?case
  proof (cases "pos < length data")
    case False
    with 1(3,4) show ?thesis
      by (simp add: parse_loop.simps [of data pos] parse_inv_def)
  next
    case True
    let ?m = "FindLongestMatch data pos 32768"
    show ?thesis
    proof (cases "3 \<le> match_length ?m")
      case m: True
      from FindLongestMatch_bounds [OF True m] have "token_ok (pos, ?m)"
        using m by (simp add: token_ok_def)
      with 1(3) have "parse_inv (pos + match_length ?m) (ms @ [?m]) (fs @ [True])"
        using match_positions_append [of fs ms "[True]" "[?m]" 0]
              consumed_append [of fs ms "[True]" "[?m]" 0]
        by (simp add: parse_inv_def)
      moreover from 1(4) True m
      have "parse_loop data (pos + match_length ?m) (ls, ms @ [?m], fs @ [True]) = (ls', ms', fs')"
        by (simp add: parse_loop.simps [of data pos] Let_def)
      ultimately show ?thesis
        using 1(1) [OF True refl m] by blast
    next
      case m: False
      from 1(3) have "parse_inv (pos + 1) ms (fs @ [False])"
        using match_positions_append [of fs ms "[False]" "[]" 0]
              consumed_append [of fs ms "[False]" "[]" 0]
        by (simp add: parse_inv_def)
      moreover from 1(4) True m
      have "parse_loop data (pos + 1) (ls @ [data ! pos], ms, fs @ [False]) = (ls', ms', fs')"
        by (simp add: parse_loop.simps [of data pos] Let_def)
      ultimately show ?thesis
        using 1(2) [OF True refl m] by blast
    qed
  qed
qed

text \<open>
  Claim C6. For every input, every match token \<open>(distance, length)\<close> the LZ77 parser emits
  satisfies \<open>1 \<le> distance \<le> 32768\<close>, \<open>3 \<le> length \<le> 255\<close>, \<open>distance\<close> at most the number of
  input bytes consumed before the match position, and \<open>length \<le> distance\<close> (the matched
  source lies entirely before the current position). \<open>match_positions\<close> lists every match
  of the parse with the bytes consumed before it.
\<close>

theorem lz77_match_bounds:
  assumes "parse_loop data 0 ([], [], []) = (literals, matches, is_match)"
  shows "map snd (match_positions is_match matches 0) = matches
       \<and> (\<forall>(p, m) \<in> set (match_positions is_match matches 0).
            1 \<le> distance m \<and> distance m \<le> 32768
            \<and> 3 \<le> match_length m \<and> match_length m \<le> 255
            \<and> distance m \<le> p \<and> match_length m \<le> distance m)"
proof -
  have "parse_inv 0 [] []" by (simp add: parse_inv_def)
  from parse_loop_inv [OF this assms] show ?thesis
    by (auto simp: list_all_iff token_ok_def)
qed

lemma parse_ABCABC:
  "parse_loop [0x41, 0x42, 0x43, 0x41, 0x42, 0x43] 0 ([], [], []) =
     ([0x41, 0x42, 0x43], [\<lparr>distance = 3, match_length = 3\<rparr>], [False, False, False, True])"
  by (simp add: parse_loop.simps FindLongestMatch_def search_loop.simps match_len.simps Let_def)

theorem lz77_match_bounds_witness:
  "parse_loop [0x41, 0x42, 0x43, 0x41, 0x42, 0x43] 0 ([], [], []) =
     ([0x41, 0x42, 0x43], [\<lparr>distance = 3, match_length = 3\<rparr>], [False, False, False, True])
   \<and> match_positions [False, False, False, True] [\<lparr>distance = 3, match_length = 3\<rparr>] 0
       = [(3, \<lparr>distance = 3, match_length = 3\<rparr>)]
   \<and> 1 \<le> distance \<lparr>distance = 3, match_length = 3\<rparr>
   \<and> distance \<lparr>distance = 3, match_length = 3\<rparr> \<le> 32768
   \<and> 3 \<le> match_length \<lparr>distance = 3, match_length = 3\<rparr>
   \<and> match_length \<lparr>distance = 3, match_length = 3\<rparr> \<le> 255
   \<and> distance \<lparr>distance = 3, match_length = 3\<rparr> \<le> 3
   \<and> match_length \<lparr>distance = 3, match_length = 3\<rparr> \<le> distance \<lparr>distance = 3, match_length = 3\<rparr>"
  using lz77_match_bounds [OF parse_ABCABC] parse_ABCABC by simp

section \<open>The symbol model built by Count\<close>

lemma PROB_SCALE_eq: "PROB_SCALE = 4096"
  by (simp add: PROB_SCALE_def PROB_BITS_def)

lemma RANS_L_eq: "RANS_L = 65536"
  by (simp add: RANS_L_def)

lemma unat_byte_less: "unat (b :: byte) < 256"
  using unsigned_less [of b, where ?'a = nat] by simp

lemma unat_u32_less: "unat (w :: u32) < 4294967296"
  using unsigned_less [of w, where ?'a = nat] by simp

lemma unat_ucast_u32_u64: "unat (ucast (w :: u32) :: u64) = unat w"
proof -
  have "unat w < 2 ^ 64" using unat_u32_less [of w] by simp
  then show ?thesis by (simp add: unsigned_ucast_eq take_bit_nat_eq_self)
qed

lemma unat_ucast_u64_u32: "unat (w :: u64) < 2 ^ 32 \<Longrightarrow> unat (ucast w :: u32) = unat w"
  by (simp add: unsigned_ucast_eq take_bit_nat_eq_self)

subsection \<open>The tally\<close>

lemma length_tally_fold:
  "length (fold (\<lambda>b fr. fr[unat b := fr ! unat b + 1]) data acc) = length acc"
  by (induction data arbitrary: acc) simp_all

lemma length_tally: "length (tally data) = 256"
  by (simp add: tally_def length_tally_fold)

lemma tally_fold_nth:
  "length (acc :: u32 list) = 256 \<Longrightarrow> i < 256 \<Longrightarrow>
   fold (\<lambda>b fr. fr[unat b := fr ! unat b + 1]) (data :: byte list) acc ! i
     = acc ! i + of_nat (count_list (map unat data) i)"
proof (induction data arbitrary: acc)
  case Nil
  then show ?case by simp
next
  case (Cons b data)
  have "unat b < 256" by (rule unat_byte_less)
  with Cons show ?case
    by (simp add: nth_list_update ac_simps)
qed

lemma tally_nth: "i < 256 \<Longrightarrow> tally data ! i = of_nat (count_list (map unat data) i)"
  by (simp add: tally_def tally_fold_nth)

lemma count_list_le_length: "count_list xs x \<le> length xs"
  by (induction xs) simp_all

lemma unat_tally_le:
  assumes "i < 256"
  shows "unat (tally data ! i) \<le> length data"
proof -
  have "unat (of_nat (count_list (map unat data) i) :: u32) \<le> count_list (map unat data) i"
    by (simp add: unat_of_nat)
  also have "\<dots> \<le> length data"
    using count_list_le_length [of "map unat data" i] by simp
  finally show ?thesis using assms by (simp add: tally_nth)
qed

lemma count_list_map_unat: "count_list (map unat data) (unat (b :: byte)) = count_list data b"
  by (induction data) (simp_all add: word_unat_eq_iff)

lemma tally_pos:
  assumes "count_list data b mod 2 ^ 32 \<noteq> 0"
  shows "0 < tally data ! unat (b :: byte)"
proof -
  have "unat (tally data ! unat b) = count_list data b mod 2 ^ 32"
    using unat_byte_less [of b] by (simp add: tally_nth count_list_map_unat unat_of_nat)
  with assms have "0 < unat (tally data ! unat b)" by simp
  then show ?thesis by (simp add: word_less_nat_alt)
qed

subsection \<open>The scaling pass\<close>

lemma scale_fold:
  "n \<le> length fr \<Longrightarrow>
   fold (scale_step tot) [0..<n] (fr, c)
     = (map (scale_freq tot) (take n fr) @ drop n fr,
        c + sum_list (map (scale_freq tot) (take n fr)))"
proof (induction n)
  case 0
  then show ?case by simp
next
  case (Suc n)
  then have n: "n < length fr" by simp
  have upd: "(map (scale_freq tot) (take n fr) @ drop n fr)[n := scale_freq tot (fr ! n)]
        = map (scale_freq tot) (take (Suc n) fr) @ drop (Suc n) fr"
    using n by (simp add: take_Suc_conv_app_nth list_update_append Cons_nth_drop_Suc [symmetric])
  have nth: "(map (scale_freq tot) (take n fr) @ drop n fr) ! n = fr ! n"
    using n by (simp add: nth_append)
  from Suc n show ?case
    by (simp add: upd nth take_Suc_conv_app_nth add.assoc)
qed

lemma scale_fold_all:
  "length fr = 256 \<Longrightarrow>
   fold (scale_step tot) [0..<256] (fr, 0)
     = (map (scale_freq tot) fr, sum_list (map (scale_freq tot) fr))"
  using scale_fold [of 256 fr tot 0] by simp

lemma scale_freq_zero: "scale_freq tot 0 = 0"
  by (simp add: scale_freq_def)

lemma scale_freq_bounds:
  assumes N: "0 < N" "N < 2 ^ 64" and f: "0 < f" "unat f \<le> N"
  shows "1 \<le> unat (scale_freq (of_nat N) f) \<and> unat (scale_freq (of_nat N) f) \<le> 4096"
proof -
  let ?tot = "of_nat N :: u64"
  let ?scaled = "(ucast f * ucast PROB_SCALE) div ?tot"
  have tot: "unat ?tot = N"
    using N by (simp add: unat_of_nat)
  have uf: "unat (ucast f :: u64) = unat f"
    by (rule unat_ucast_u32_u64)
  have "unat f < 2 ^ 32" using unat_u32_less [of f] by simp
  then have small: "unat f * 4096 < 2 ^ 64" by simp
  have prod: "unat (ucast f * ucast PROB_SCALE :: u64) = unat f * 4096"
    using small by (simp add: unat_word_ariths uf PROB_SCALE_eq)
  have sc: "unat ?scaled = unat f * 4096 div N"
    by (simp add: unat_div prod tot)
  have "unat f * 4096 div N \<le> N * 4096 div N"
    using f(2) by (intro div_le_mono) simp
  also have "\<dots> = 4096" using N(1) by simp
  finally have le: "unat ?scaled \<le> 4096" by (simp add: sc)
  let ?s1 = "if ?scaled = 0 then 1 else ?scaled"
  have s1: "1 \<le> unat ?s1 \<and> unat ?s1 \<le> 4096"
    using le by (auto simp: unat_gt_0 Suc_le_eq)
  then have "unat ?s1 < 2 ^ 32" by simp
  then have "unat (ucast ?s1 :: u32) = unat ?s1"
    by (rule unat_ucast_u64_u32)
  moreover have "scale_freq ?tot f = ucast ?s1"
    using f(1) by (simp add: scale_freq_def Let_def)
  ultimately show ?thesis using s1 by simp
qed

subsection \<open>Sums of a frequency table\<close>

lemma unat_sum_list:
  "sum_list (map unat ws) < 2 ^ 32 \<Longrightarrow> unat (sum_list ws) = sum_list (map unat (ws :: u32 list))"
proof (induction ws)
  case Nil
  then show ?case by simp
next
  case (Cons w ws)
  then have "unat (sum_list ws) = sum_list (map unat ws)" by simp
  moreover from Cons.prems have "unat w + sum_list (map unat ws) < 2 ^ LENGTH(32)" by simp
  ultimately show ?case
    using unat_add_lem [of w "sum_list ws"] by simp
qed

lemma sum_list_bounded: "\<forall>x \<in> set xs. x \<le> (b :: nat) \<Longrightarrow> sum_list xs \<le> length xs * b"
  by (induction xs) auto

lemma sum_unat_update:
  assumes "i < length fr"
  shows "sum_list (map unat (fr[i := v])) + unat (fr ! i) = sum_list (map unat fr) + unat (v :: u32)"
proof -
  have "unat (fr ! i) \<le> sum_list (map unat fr)"
    using assms member_le_sum_list [of "unat (fr ! i)" "map unat fr"] by simp
  then show ?thesis
    using assms by (simp add: map_update sum_list_update)
qed

subsection \<open>The decrement loop returns\<close>

lemma decrement_skip:
  assumes "PROB_SCALE < cur" and "i < 256"
    and "\<forall>k'<k. \<not> 1 < fr ! ((i + k') mod 256)" and "1 < fr ! ((i + k) mod 256)"
  shows "decrement_loop fr cur i
       = decrement_loop (fr[(i + k) mod 256 := fr ! ((i + k) mod 256) - 1]) (cur - 1)
           (((i + k) mod 256 + 1) mod 256)"
  using assms(2-4)
proof (induction k arbitrary: i)
  case 0
  then show ?case
    using assms(1) by (subst decrement_loop.simps) simp
next
  case (Suc k)
  from Suc.prems(2) have here: "\<not> 1 < fr ! i"
    using Suc.prems(1) by (auto dest: spec [of _ 0])
  have step: "((i + 1) mod 256 + k') mod 256 = (i + Suc k') mod 256" for k'
    by (simp add: mod_add_left_eq)
  have "decrement_loop fr cur i = decrement_loop fr cur ((i + 1) mod 256)"
    using assms(1) here by (subst decrement_loop.simps) simp
  also have "\<dots> = decrement_loop
      (fr[((i + 1) mod 256 + k) mod 256 := fr ! (((i + 1) mod 256 + k) mod 256) - 1]) (cur - 1)
      ((((i + 1) mod 256 + k) mod 256 + 1) mod 256)"
  proof (rule Suc.IH)
    show "(i + 1) mod 256 < 256" by simp
    show "\<forall>k'<k. \<not> 1 < fr ! (((i + 1) mod 256 + k') mod 256)"
    proof (intro allI impI)
      fix k' assume "k' < k"
      then have "Suc k' < Suc k" by simp
      with Suc.prems(2) have "\<not> 1 < fr ! ((i + Suc k') mod 256)"
        by blast
      then show "\<not> 1 < fr ! (((i + 1) mod 256 + k') mod 256)"
        unfolding step .
    qed
    show "1 < fr ! (((i + 1) mod 256 + k) mod 256)"
      using Suc.prems(3) unfolding step .
  qed
  finally show ?case unfolding step .
qed

lemma decrement_loop_returns:
  assumes "length fr = 256" and "i < 256"
    and "unat cur = sum_list (map unat fr)" and "4096 \<le> unat cur"
  shows "\<exists>fr'. decrement_loop fr cur i = Some fr' \<and> length fr' = 256
           \<and> sum_list (map unat fr') = 4096
           \<and> (\<forall>j<256. (fr ! j = 0 \<longrightarrow> fr' ! j = 0) \<and> (0 < fr ! j \<longrightarrow> 0 < fr' ! j)
                       \<and> fr' ! j \<le> fr ! j)"
  using assms
proof (induction "unat cur - 4096" arbitrary: fr cur i)
  case 0
  then have "unat cur = 4096" by simp
  then have "\<not> PROB_SCALE < cur"
    by (simp add: word_less_nat_alt PROB_SCALE_eq)
  then have "decrement_loop fr cur i = Some fr"
    by (subst decrement_loop.simps) simp
  with 0 \<open>unat cur = 4096\<close> show ?case by simp
next
  case (Suc n)
  then have big: "4096 < unat cur" by simp
  then have gt: "PROB_SCALE < cur"
    by (simp add: word_less_nat_alt PROB_SCALE_eq)
  have "\<exists>j<256. 1 < fr ! j"
  proof (rule ccontr)
    assume "\<not> (\<exists>j<256. 1 < fr ! j)"
    have small: "unat (fr ! j) \<le> 1" if "j < 256" for j
    proof -
      from that \<open>\<not> (\<exists>j<256. 1 < fr ! j)\<close> have "\<not> 1 < fr ! j" by blast
      then have "fr ! j \<le> 1" by (simp add: not_less)
      then have "unat (fr ! j) \<le> unat (1 :: u32)" by (simp only: word_le_nat_alt)
      then show ?thesis by simp
    qed
    have "\<forall>x \<in> set (map unat fr). x \<le> 1"
      using Suc.prems(1) small by (auto simp: in_set_conv_nth)
    from sum_list_bounded [OF this] have "sum_list (map unat fr) \<le> 256"
      using Suc.prems(1) by simp
    with big Suc.prems(3) show False by simp
  qed
  then obtain j where j: "j < 256" "1 < fr ! j" by blast
  have "(i + (j + 256 - i) mod 256) mod 256 = j"
  proof -
    have "(i + (j + 256 - i) mod 256) mod 256 = (i + (j + 256 - i)) mod 256"
      by (simp add: mod_add_right_eq)
    also have "\<dots> = (j + 256) mod 256"
      using Suc.prems(2) by simp
    also have "\<dots> = j" using j(1) by simp
    finally show ?thesis .
  qed
  with j(2) have ex: "\<exists>k. 1 < fr ! ((i + k) mod 256)" by metis
  define k where "k = (LEAST k. 1 < fr ! ((i + k) mod 256))"
  have k1: "1 < fr ! ((i + k) mod 256)"
    unfolding k_def using ex by (rule LeastI_ex)
  have k2: "\<forall>k'<k. \<not> 1 < fr ! ((i + k') mod 256)"
    unfolding k_def using not_less_Least by blast
  define p where "p = (i + k) mod 256"
  have p: "p < 256" by (simp add: p_def)
  let ?fr1 = "fr[p := fr ! p - 1]"
  have skip: "decrement_loop fr cur i = decrement_loop ?fr1 (cur - 1) ((p + 1) mod 256)"
    unfolding p_def using gt Suc.prems(2) k2 k1 by (rule decrement_skip)
  have up: "1 < unat (fr ! p)"
    using k1 by (simp add: p_def word_less_nat_alt)
  then have "1 \<le> fr ! p" by (simp add: word_le_nat_alt)
  then have dec: "unat (fr ! p - 1) = unat (fr ! p) - 1"
    by (simp add: unat_sub)
  have "1 \<le> cur" using big by (simp add: word_le_nat_alt)
  then have cur1: "unat (cur - 1) = unat cur - 1"
    by (simp add: unat_sub)
  have sum1: "sum_list (map unat ?fr1) = sum_list (map unat fr) - 1"
    using sum_unat_update [of p fr "fr ! p - 1"] p Suc.prems(1) dec up by simp
  have "\<exists>fr'. decrement_loop ?fr1 (cur - 1) ((p + 1) mod 256) = Some fr' \<and> length fr' = 256
           \<and> sum_list (map unat fr') = 4096
           \<and> (\<forall>j<256. (?fr1 ! j = 0 \<longrightarrow> fr' ! j = 0) \<and> (0 < ?fr1 ! j \<longrightarrow> 0 < fr' ! j)
                       \<and> fr' ! j \<le> ?fr1 ! j)"
  proof (rule Suc.hyps(1))
    show "n = unat (cur - 1) - 4096" using Suc.hyps(2) cur1 by simp
    show "length ?fr1 = 256" using Suc.prems(1) by simp
    show "(p + 1) mod 256 < 256" by simp
    show "unat (cur - 1) = sum_list (map unat ?fr1)"
      using cur1 sum1 Suc.prems(3) by simp
    show "4096 \<le> unat (cur - 1)" using cur1 big by simp
  qed
  then obtain fr' where fr': "decrement_loop ?fr1 (cur - 1) ((p + 1) mod 256) = Some fr'"
      "length fr' = 256" "sum_list (map unat fr') = 4096"
      "\<forall>j<256. (?fr1 ! j = 0 \<longrightarrow> fr' ! j = 0) \<and> (0 < ?fr1 ! j \<longrightarrow> 0 < fr' ! j)
                       \<and> fr' ! j \<le> ?fr1 ! j"
    by blast
  have pos1: "0 < fr ! p - 1"
    using dec up by (simp add: word_less_nat_alt)
  have le1: "fr ! p - 1 \<le> fr ! p"
    using dec by (simp add: word_le_nat_alt)
  have nz: "fr ! p \<noteq> 0" using up by auto
  have "(fr ! q = 0 \<longrightarrow> fr' ! q = 0) \<and> (0 < fr ! q \<longrightarrow> 0 < fr' ! q) \<and> fr' ! q \<le> fr ! q"
    if q: "q < 256" for q
  proof (cases "q = p")
    case True
    with fr'(4) q Suc.prems(1) pos1 le1 nz show ?thesis
      by (auto simp: nth_list_update dest!: spec [of _ p])
  next
    case False
    with fr'(4) q Suc.prems(1) show ?thesis
      by (auto simp: nth_list_update dest!: spec [of _ q])
  qed
  with skip fr'(1-3) show ?case by simp
qed

subsection \<open>The cumulative table\<close>

lemma length_cum_fold: "length (fold (cum_step fr) is c) = length c"
  by (induction "is" arbitrary: c) (simp_all add: cum_step_def)

lemma length_build_cum: "length (build_cum fr) = 257"
  by (simp add: build_cum_def length_cum_fold)

lemma cum_fold_nth:
  "n \<le> 256 \<Longrightarrow> length fr = 256 \<Longrightarrow> k \<le> n \<Longrightarrow>
   fold (cum_step fr) [0..<n] (replicate 257 0) ! k = sum_list (take k fr)"
proof (induction n arbitrary: k)
  case 0
  then show ?case by simp
next
  case (Suc n)
  define c where "c = fold (cum_step fr) [0..<n] (replicate 257 0)"
  have len: "length c = 257" by (simp add: c_def length_cum_fold)
  have n: "n < length fr" "n < 256" using Suc.prems by simp_all
  have unfold: "fold (cum_step fr) [0..<Suc n] (replicate 257 0) = c[Suc n := c ! n + fr ! n]"
    by (simp add: c_def cum_step_def [of fr n])
  show ?case
  proof (cases "k = Suc n")
    case True
    have "c ! n = sum_list (take n fr)" unfolding c_def using Suc by simp
    then show ?thesis
      unfolding unfold using True len n by (simp add: take_Suc_conv_app_nth)
  next
    case False
    with Suc.prems have "k \<le> n" by simp
    with Suc have "c ! k = sum_list (take k fr)" unfolding c_def by simp
    with False show ?thesis unfolding unfold by simp
  qed
qed

lemma build_cum_nth:
  "length fr = 256 \<Longrightarrow> k \<le> 256 \<Longrightarrow> build_cum fr ! k = sum_list (take k fr)"
  by (simp add: build_cum_def cum_fold_nth)

lemma sum_take_le: "sum_list (take k xs) \<le> sum_list (xs :: nat list)"
proof -
  have "sum_list xs = sum_list (take k xs) + sum_list (drop k xs)"
    by (metis append_take_drop_id sum_list_append)
  then show ?thesis by simp
qed

lemma unat_prefix_sum:
  assumes "sum_list (map unat fr) = 4096"
  shows "unat (sum_list (take k fr)) = sum_list (take k (map unat (fr :: u32 list)))"
proof -
  have "sum_list (take k (map unat fr)) \<le> 4096"
    using sum_take_le [of k "map unat fr"] assms by simp
  then have "sum_list (map unat (take k fr)) < 2 ^ 32"
    by (simp add: take_map)
  from unat_sum_list [OF this] show ?thesis by (simp add: take_map)
qed

lemma model_ok_slot:
  assumes "model_ok st" and "i < 256"
  shows "unat (cum_freqs st ! i) + unat (freqs st ! i) \<le> 4096"
proof -
  let ?fr = "freqs st"
  from assms(1) have len: "length ?fr = 256" and tot: "sum_list (map unat ?fr) = 4096"
    and cum: "cum_freqs st = build_cum ?fr"
    by (simp_all add: model_ok_def)
  have "unat (cum_freqs st ! i) = sum_list (take i (map unat ?fr))"
    using assms(2) len by (simp add: cum build_cum_nth unat_prefix_sum [OF tot])
  moreover have "sum_list (take (Suc i) (map unat ?fr))
      = sum_list (take i (map unat ?fr)) + unat (?fr ! i)"
    using assms(2) len by (simp add: take_Suc_conv_app_nth)
  moreover have "sum_list (take (Suc i) (map unat ?fr)) \<le> 4096"
    using sum_take_le [of "Suc i" "map unat ?fr"] tot by simp
  ultimately show ?thesis by simp
qed


subsection \<open>Count\<close>

lemma adjust_returns:
  assumes len: "length fr = 256"
    and small: "\<forall>j<256. unat (fr ! j) \<le> 4096"
  shows "\<exists>fr'. adjust (fr, sum_list fr) = Some fr' \<and> length fr' = 256
           \<and> sum_list (map unat fr') = 4096
           \<and> (\<forall>j<256. 0 < fr ! j \<longrightarrow> 0 < fr' ! j)"
proof -
  let ?cur = "sum_list fr"
  have "\<forall>x \<in> set (map unat fr). x \<le> 4096"
    using small len by (auto simp: in_set_conv_nth)
  from sum_list_bounded [OF this] have "sum_list (map unat fr) \<le> 256 * 4096"
    using len by simp
  then have "sum_list (map unat fr) < 2 ^ 32" by simp
  then have cur: "unat ?cur = sum_list (map unat fr)" by (rule unat_sum_list)
  consider "?cur < PROB_SCALE" | "PROB_SCALE < ?cur" | "?cur = PROB_SCALE"
    by fastforce
  then show ?thesis
  proof cases
    case 1
    then have lt: "unat ?cur < 4096"
      by (simp add: word_less_nat_alt PROB_SCALE_eq)
    then have "?cur \<le> PROB_SCALE"
      by (simp add: word_le_nat_alt PROB_SCALE_eq)
    then have d: "unat (PROB_SCALE - ?cur) = 4096 - unat ?cur"
      by (simp add: unat_sub PROB_SCALE_eq)
    have f0: "unat (fr ! 0) \<le> unat ?cur"
      using member_le_sum_list [of "unat (fr ! 0)" "map unat fr"] len cur by simp
    then have "unat (fr ! 0) + unat (PROB_SCALE - ?cur) < 2 ^ LENGTH(32)"
      using d lt by simp
    then have new: "unat (fr ! 0 + (PROB_SCALE - ?cur)) = unat (fr ! 0) + (4096 - unat ?cur)"
      using d unat_add_lem [of "fr ! 0" "PROB_SCALE - ?cur"] by simp
    let ?fr' = "fr[0 := fr ! 0 + (PROB_SCALE - ?cur)]"
    have "sum_list (map unat ?fr') + unat (fr ! 0)
        = sum_list (map unat fr) + (unat (fr ! 0) + (4096 - unat ?cur))"
      using sum_unat_update [of 0 fr "fr ! 0 + (PROB_SCALE - ?cur)"] len new by simp
    then have total: "sum_list (map unat ?fr') = 4096"
      using cur lt by simp
    have keep: "0 < ?fr' ! j" if "j < 256" "0 < fr ! j" for j
    proof (cases "j = 0")
      case True
      from that(2) True have "0 < unat (fr ! 0)" by (simp add: word_less_nat_alt)
      then have "0 < unat (?fr' ! 0)" using new len by simp
      then show ?thesis using True by (simp add: word_less_nat_alt)
    next
      case False
      with that show ?thesis by simp
    qed
    have "adjust (fr, ?cur) = Some ?fr'" using 1 by simp
    with total keep len show ?thesis by simp
  next
    case 2
    then have "4096 \<le> unat ?cur"
      by (simp add: word_less_nat_alt PROB_SCALE_eq)
    from decrement_loop_returns [OF len _ cur this, of 0]
    obtain fr' where fr': "decrement_loop fr ?cur 0 = Some fr'" "length fr' = 256"
      "sum_list (map unat fr') = 4096"
      "\<forall>j<256. (fr ! j = 0 \<longrightarrow> fr' ! j = 0) \<and> (0 < fr ! j \<longrightarrow> 0 < fr' ! j) \<and> fr' ! j \<le> fr ! j"
      by auto
    have "\<not> ?cur < PROB_SCALE" using 2 by simp
    with 2 fr'(1) have "adjust (fr, ?cur) = Some fr'" by simp
    with fr'(2-4) show ?thesis by simp
  next
    case 3
    then have "sum_list (map unat fr) = 4096"
      using cur by (simp add: PROB_SCALE_eq)
    moreover have "adjust (fr, ?cur) = Some fr" using 3 by simp
    ultimately show ?thesis using len by simp
  qed
qed

lemma Count_model:
  assumes "data \<noteq> []" and "length data < 2 ^ 64"
  shows "\<exists>st'. Count data st = Some st' \<and> model_ok st'
           \<and> (\<forall>b. count_list data b mod 2 ^ 32 \<noteq> 0 \<longrightarrow> 1 \<le> freqs st' ! unat b)"
proof -
  let ?N = "length data"
  let ?tot = "of_nat ?N :: u64"
  let ?fr0 = "tally data"
  let ?fr1 = "map (scale_freq ?tot) ?fr0"
  have N: "0 < ?N" "?N < 2 ^ 64" using assms by simp_all
  then have "unat ?tot = ?N" by (simp add: unat_of_nat)
  with N(1) have tot0: "?tot \<noteq> 0" by auto
  have sc: "(?fr0 ! i = 0 \<longrightarrow> ?fr1 ! i = 0)
          \<and> (0 < ?fr0 ! i \<longrightarrow> 1 \<le> unat (?fr1 ! i)) \<and> unat (?fr1 ! i) \<le> 4096" if "i < 256" for i
  proof (cases "?fr0 ! i = 0")
    case True
    then show ?thesis using that by (simp add: length_tally scale_freq_zero)
  next
    case False
    then have "0 < ?fr0 ! i" by (simp add: word_neq_0_conv)
    from scale_freq_bounds [OF N this unat_tally_le [OF that]] that False show ?thesis
      by (simp add: length_tally)
  qed
  have len1: "length ?fr1 = 256" by (simp add: length_tally)
  have "\<forall>j<256. unat (?fr1 ! j) \<le> 4096" using sc by blast
  from adjust_returns [OF len1 this]
  obtain fr2 where fr2: "adjust (?fr1, sum_list ?fr1) = Some fr2" "length fr2 = 256"
      "sum_list (map unat fr2) = 4096" "\<forall>j<256. 0 < ?fr1 ! j \<longrightarrow> 0 < fr2 ! j"
    by blast
  have C: "Count data st = Some (with_cum fr2)"
    using tot0 fr2(1) by (simp add: Count_def scale_fold_all length_tally)
  have ok: "model_ok (with_cum fr2)"
    using fr2(2,3) by (simp add: model_ok_def with_cum_def)
  have seen: "1 \<le> freqs (with_cum fr2) ! unat b" if "count_list data b mod 2 ^ 32 \<noteq> 0" for b
  proof -
    have b: "unat b < 256" by (rule unat_byte_less)
    from tally_pos [OF that] have "0 < ?fr0 ! unat b" .
    with sc [OF b] have "1 \<le> unat (?fr1 ! unat b)" by simp
    then have "0 < ?fr1 ! unat b" by (simp add: word_less_nat_alt)
    with fr2(4) b have "0 < fr2 ! unat b" by simp
    then have "0 < unat (fr2 ! unat b)" by (simp add: word_less_nat_alt)
    then have "unat (1 :: u32) \<le> unat (fr2 ! unat b)" by simp
    then show ?thesis by (simp only: word_le_nat_alt with_cum_def SymbolStats.simps)
  qed
  from C ok seen show ?thesis by blast
qed

lemma count_list_small:
  assumes "length data < 2 ^ 32" and "b \<in> set data"
  shows "count_list data b mod 2 ^ 32 \<noteq> 0"
proof -
  have "count_list data b \<noteq> 0"
    unfolding count_list_0_iff using assms(2) by blast
  moreover have "count_list data b < 2 ^ 32"
    using count_list_le_length [of data b] assms(1) by simp
  ultimately show ?thesis by simp
qed

lemma Count_props:
  assumes "data \<noteq> []" and "length data < 2 ^ 32"
  shows "\<exists>st'. Count data st = Some st' \<and> model_ok st'
           \<and> (\<forall>b \<in> set data. 1 \<le> freqs st' ! unat b)"
proof -
  from assms(2) have "length data < 2 ^ 64" by simp
  from Count_model [OF assms(1) this, of st]
  obtain st' where st': "Count data st = Some st'" "model_ok st'"
      "\<forall>b. count_list data b mod 2 ^ 32 \<noteq> 0 \<longrightarrow> 1 \<le> freqs st' ! unat b"
    by blast
  have "\<forall>b \<in> set data. 1 \<le> freqs st' ! unat b"
    using st'(3) count_list_small [OF assms(2)] by blast
  with st' show ?thesis by blast
qed




lemma u32_wraps: "(of_nat 4294967296 :: u32) = 0"
  by (simp add: word_unat_eq_iff unat_of_nat)




section \<open>The container header\<close>

lemma u32_of_bytes:
  "ucast (ucast x :: byte) OR push_bit 8 (ucast (ucast (drop_bit 8 x) :: byte))
     OR push_bit 16 (ucast (ucast (drop_bit 16 x) :: byte))
     OR push_bit 24 (ucast (ucast (drop_bit 24 x) :: byte)) = (x :: u32)"
proof (rule bit_word_eqI)
  fix n :: nat
  assume "n < LENGTH(32)"
  then have n: "n < 32" by simp
  consider "n < 8" | "8 \<le> n" "n < 16" | "16 \<le> n" "n < 24" | "24 \<le> n"
    by linarith
  then show "bit ((ucast (ucast x :: byte) :: u32) OR push_bit 8 (ucast (ucast (drop_bit 8 x) :: byte))
     OR push_bit 16 (ucast (ucast (drop_bit 16 x) :: byte))
     OR push_bit 24 (ucast (ucast (drop_bit 24 x) :: byte))) n = bit x n"
    using n by cases (auto simp: bit_simps)
qed

lemma rd32_header:
  "rd32 (le32 a @ le32 b @ le32 c @ le32 d @ le32 e @ le32 f @ rest) 0 = a"
  "rd32 (le32 a @ le32 b @ le32 c @ le32 d @ le32 e @ le32 f @ rest) 4 = b"
  "rd32 (le32 a @ le32 b @ le32 c @ le32 d @ le32 e @ le32 f @ rest) 8 = c"
  "rd32 (le32 a @ le32 b @ le32 c @ le32 d @ le32 e @ le32 f @ rest) 12 = d"
  "rd32 (le32 a @ le32 b @ le32 c @ le32 d @ le32 e @ le32 f @ rest) 16 = e"
  "rd32 (le32 a @ le32 b @ le32 c @ le32 d @ le32 e @ le32 f @ rest) 20 = f"
  by (simp_all add: rd32_def le32_def u32_of_bytes)

lemma length_le32: "length (le32 x) = 4"
  by (simp add: le32_def)

lemma length_GetModelData: "length (GetModelData e) = 512"
  by (simp add: GetModelData_def length_concat comp_def Let_def sum_list_triv)

lemma take_truncated: "length (take (unat (of_nat (length xs) :: u32)) xs) = unat (of_nat (length xs) :: u32)"
  by (simp add: unat_of_nat min_def)

lemma write_container_header:
  "rd32 (write_container n r f m md) 0 = 0x4D49444F"
  "rd32 (write_container n r f m md) 4 = of_nat n"
  "rd32 (write_container n r f m md) 8 = of_nat (length r)"
  "rd32 (write_container n r f m md) 12 = of_nat (length f)"
  "rd32 (write_container n r f m md) 16 = of_nat (length m)"
  "rd32 (write_container n r f m md) 20 = of_nat (length md)"
  unfolding write_container_def Let_def by (rule rd32_header)+

lemma length_write_container:
  "length (write_container n r f m md) =
     24 + unat (of_nat (length r) :: u32) + unat (of_nat (length f) :: u32)
        + unat (of_nat (length m) :: u32) + unat (of_nat (length md) :: u32)"
  unfolding write_container_def Let_def length_append length_le32 take_truncated by simp

lemma Compress_Artifact:
  assumes "Compress data = Some (Artifact a)"
  obtains r f m e where "a = write_container (length data) r f m (GetModelData e)"
  using assms by (auto simp: Compress_def split: if_splits option.splits prod.splits)

lemma Encode_stats: "Encode s e = Some e' \<Longrightarrow> stats e' = stats e"
  by (auto simp: Encode_def Let_def split: option.splits)

lemma encode_all_stats: "encode_all ss e = Some e' \<Longrightarrow> stats e' = stats e"
proof (induction ss arbitrary: e)
  case Nil
  then show ?case by simp
next
  case (Cons s ss)
  then obtain e1 where e1: "Encode s e = Some e1" "encode_all ss e1 = Some e'"
    by (auto split: option.splits)
  from Cons.IH [OF e1(2)] Encode_stats [OF e1(1)] show ?case by simp
qed

lemma Compress_Artifact_model:
  assumes "Compress data = Some (Artifact a)"
  obtains r f m e st where "a = write_container (length data) r f m (GetModelData e)"
    and "Count data (stats enc_impl0) = Some st" and "stats e = st" and "data \<noteq> []"
proof -
  from assms have ne: "data \<noteq> []" by (auto simp: Compress_def)
  from assms ne obtain rans0 where b: "BuildModel data (RansEncoder_Init enc_impl0) = Some rans0"
    by (auto simp: Compress_def split: option.splits)
  obtain ls ms fs where p: "parse_loop data 0 ([], [], []) = (ls, ms, fs)"
    by (cases "parse_loop data 0 ([], [], [])")
  from assms ne b p obtain rans1 where e: "encode_all (rev ls) rans0 = Some rans1"
    by (auto simp: Compress_def split: option.splits)
  from b obtain st where st: "Count data (stats enc_impl0) = Some st" "rans0 = (RansEncoder_Init enc_impl0)\<lparr>stats := st\<rparr>"
    by (auto simp: BuildModel_def RansEncoder_Init_def)
  have "stats (RansEncoder_Flush rans1) = st"
    using encode_all_stats [OF e] st(2) by (simp add: RansEncoder_Flush_def)
  moreover have "a = write_container (length data) (GetOutput (RansEncoder_Flush rans1))
       (GetData (BitWriter_Flush (fold WriteBit fs BitWriter_init)))
       (concat (map pack_match ms)) (GetModelData (RansEncoder_Flush rans1))"
    using assms ne b p e by (simp add: Compress_def)
  ultimately show ?thesis using that st(1) ne by blast
qed

lemma le16_freq: "le16 (ucast (f :: u32)) = [ucast (f AND 0xFF), ucast (drop_bit 8 f AND 0xFF)]"
proof -
  have m: "w AND 0xFF = take_bit 8 w" for w :: u32
    by (simp add: take_bit_eq_mask mask_eq_exp_minus_1)
  have "(ucast (ucast f :: u16) :: byte) = ucast (f AND 0xFF)"
    unfolding m by (rule bit_word_eqI) (auto simp: bit_simps)
  moreover have "(ucast (drop_bit 8 (ucast f :: u16)) :: byte) = ucast (drop_bit 8 f AND 0xFF)"
    unfolding m by (rule bit_word_eqI) (auto simp: bit_simps)
  ultimately show ?thesis by (simp add: le16_def)
qed

lemma GetModelData_le16:
  "GetModelData e = concat (map (\<lambda>i. le16 (ucast (freqs (stats e) ! i))) [0..<256])"
  by (simp only: GetModelData_def Let_def le16_freq)

lemma model_region_write_container:
  assumes "length md = 512"
  shows "drop (24 + unat (rd32 (write_container n r f m md) 8)
                 + unat (rd32 (write_container n r f m md) 12)
                 + unat (rd32 (write_container n r f m md) 16)) (write_container n r f m md) = md"
proof -
  let ?h = "le32 0x4D49444F @ le32 (of_nat n) @ le32 (of_nat (length r)) @ le32 (of_nat (length f))
            @ le32 (of_nat (length m)) @ le32 (of_nat (length md))"
  let ?r = "take (unat (of_nat (length r) :: u32)) r"
  let ?f = "take (unat (of_nat (length f) :: u32)) f"
  let ?m = "take (unat (of_nat (length m) :: u32)) m"
  have w: "write_container n r f m md = (?h @ ?r @ ?f @ ?m) @ md"
    using assms by (simp add: write_container_def Let_def)
  have len: "length (?h @ ?r @ ?f @ ?m) = 24 + unat (of_nat (length r) :: u32)
       + unat (of_nat (length f) :: u32) + unat (of_nat (length m) :: u32)"
    unfolding length_append length_le32 take_truncated by simp
  show ?thesis
    unfolding write_container_header
    unfolding w len [symmetric] by simp
qed

text \<open>
  Claim C8, amended. In every artifact \<open>Compress\<close> produces, the header holds the magic
  \<open>0x4D49444F\<close>, the model size field is 512, and the four region size fields (rans, flags,
  match, model) plus 24 sum to the length of the artifact. The fifth size field, the
  original size, is not part of that sum. The model payload, the last 512 bytes, is exactly
  the 256 frequencies of the model \<open>Count\<close> built from the input, each as a little-endian
  16-bit value; each frequency is at most 4096 and so fits its 16 bits.
\<close>

theorem header_consistency:
  assumes "Compress data = Some (Artifact a)"
  shows "rd32 a 0 = 0x4D49444F \<and> rd32 a 20 = 512
       \<and> length a = 24 + unat (rd32 a 8) + unat (rd32 a 12) + unat (rd32 a 16) + unat (rd32 a 20)
       \<and> (\<exists>st. Count data (stats enc_impl0) = Some st
            \<and> drop (24 + unat (rd32 a 8) + unat (rd32 a 12) + unat (rd32 a 16)) a
                = concat (map (\<lambda>i. le16 (ucast (freqs st ! i))) [0..<256])
            \<and> (length data < 2 ^ 64 \<longrightarrow> list_all (\<lambda>i. unat (freqs st ! i) \<le> 4096) [0..<256]))"
proof -
  from assms obtain r f m e st where a: "a = write_container (length data) r f m (GetModelData e)"
    and st: "Count data (stats enc_impl0) = Some st" "stats e = st" and ne: "data \<noteq> []"
    by (rule Compress_Artifact_model)
  have "drop (24 + unat (rd32 a 8) + unat (rd32 a 12) + unat (rd32 a 16)) a = GetModelData e"
    unfolding a by (rule model_region_write_container) (rule length_GetModelData)
  then have payload: "drop (24 + unat (rd32 a 8) + unat (rd32 a 12) + unat (rd32 a 16)) a
                = concat (map (\<lambda>i. le16 (ucast (freqs st ! i))) [0..<256])"
    using st(2) by (simp only: GetModelData_le16)
  have header: "rd32 a 0 = 0x4D49444F \<and> rd32 a 20 = 512
       \<and> length a = 24 + unat (rd32 a 8) + unat (rd32 a 12) + unat (rd32 a 16) + unat (rd32 a 20)"
    unfolding a write_container_header length_write_container
    by (simp add: length_GetModelData)
  have fits: "list_all (\<lambda>i. unat (freqs st ! i) \<le> 4096) [0..<256]" if "length data < 2 ^ 64"
  proof -
    from Count_model [OF ne that, of "stats enc_impl0"] st(1) have ok: "model_ok st" by auto
    have "unat (freqs st ! i) \<le> 4096" if "i < 256" for i
      using model_ok_slot [OF ok that] by simp
    then show ?thesis by (simp add: list_all_iff)
  qed
  from header payload fits st(1) show ?thesis by blast
qed

lemma Compress_A_length:
  "(case Compress [0x41] of Some (Artifact a) \<Rightarrow> length a = 541 | _ \<Rightarrow> False)"
  by code_simp

lemma Compress_A: "\<exists>a. Compress [0x41] = Some (Artifact a) \<and> length a = 541"
  using Compress_A_length by (auto split: option.splits compress_result.splits)

theorem header_consistency_witness:
  "\<exists>a st. Compress [0x41] = Some (Artifact a) \<and> length a = 541
      \<and> rd32 a 0 = 0x4D49444F \<and> rd32 a 20 = 512
      \<and> length a = 24 + unat (rd32 a 8) + unat (rd32 a 12) + unat (rd32 a 16) + unat (rd32 a 20)
      \<and> Count [0x41] (stats enc_impl0) = Some st
      \<and> drop (24 + unat (rd32 a 8) + unat (rd32 a 12) + unat (rd32 a 16)) a
            = concat (map (\<lambda>i. le16 (ucast (freqs st ! i))) [0..<256])
      \<and> length [0x41 :: byte] < 2 ^ 64
      \<and> list_all (\<lambda>i. unat (freqs st ! i) \<le> 4096) [0..<256]"
proof -
  from Compress_A obtain a where a: "Compress [0x41] = Some (Artifact a)" "length a = 541"
    by blast
  have len: "length [0x41 :: byte] < 2 ^ 64" by simp
  from header_consistency [OF a(1)] len a show ?thesis by blast
qed

text \<open>
  With the original size counted in, the five size fields plus 24 exceed the length of
  the artifact: for the one-byte input \<open>A\<close> the artifact has 541 bytes.
\<close>

theorem five_size_fields_counterexample:
  "\<exists>a. Compress [0x41] = Some (Artifact a)
      \<and> length a \<noteq> 24 + unat (rd32 a 4) + unat (rd32 a 8) + unat (rd32 a 12)
                       + unat (rd32 a 16) + unat (rd32 a 20)"
proof -
  from Compress_A obtain a where a: "Compress [0x41] = Some (Artifact a)"
    by blast
  then obtain r f m e where w: "a = write_container (length [0x41 :: byte]) r f m (GetModelData e)"
    by (rule Compress_Artifact)
  have "rd32 a 4 = 1"
    unfolding w write_container_header by simp
  moreover have "length a = 24 + unat (rd32 a 8) + unat (rd32 a 12) + unat (rd32 a 16) + unat (rd32 a 20)"
    unfolding w write_container_header length_write_container by simp
  ultimately have "length a \<noteq> 24 + unat (rd32 a 4) + unat (rd32 a 8) + unat (rd32 a 12)
                       + unat (rd32 a 16) + unat (rd32 a 20)"
    by simp
  with a show ?thesis by blast
qed

section \<open>The invariants of the rANS coder\<close>

lemma unat_threshold:
  assumes "unat f \<le> 4096"
  shows "unat (push_bit (31 - PROB_BITS) 1 * f :: u32) = 524288 * unat f"
proof -
  have "unat (524288 :: u32) * unat f < 2 ^ LENGTH(32)"
    using assms by simp
  then have "unat (524288 * f) = unat (524288 :: u32) * unat f"
    by (simp only: unat_mult_lem)
  then show ?thesis by (simp add: PROB_BITS_def)
qed

lemma renorm_out_returns:
  assumes "1 \<le> unat f" and "unat f \<le> 4096" and "16 * unat f \<le> unat st"
  shows "\<exists>x buf'. renorm_out f st buf = Some (x, buf')
           \<and> unat x < 524288 * unat f \<and> 16 * unat f \<le> unat x"
  using assms(3)
proof (induction "unat st" arbitrary: st buf rule: less_induct)
  case less
  show ?case
  proof (cases "push_bit (31 - PROB_BITS) 1 * f \<le> st")
    case False
    then have "unat st < 524288 * unat f"
      using unat_threshold [OF assms(2)] by (simp add: word_le_nat_alt)
    moreover have "renorm_out f st buf = Some (st, buf)"
      using False by (subst renorm_out.simps) simp
    ultimately show ?thesis using less.prems by simp
  next
    case True
    then have big: "524288 * unat f \<le> unat st"
      using unat_threshold [OF assms(2)] by (simp add: word_le_nat_alt)
    have d: "unat (drop_bit 8 st) = unat st div 256"
      by (simp add: drop_bit_eq_div unat_div)
    have "256 * (2048 * unat f) \<le> unat st" using big by simp
    then have "2048 * unat f \<le> unat st div 256"
      by (simp add: less_eq_div_iff_mult_less_eq mult.commute)
    then have lower: "16 * unat f \<le> unat (drop_bit 8 st)"
      using d by simp
    have "0 < unat st" using big assms(1) by simp
    then have "unat (drop_bit 8 st) < unat st"
      using d by simp
    from less.hyps [OF this lower, of "buf @ [ucast (st AND 0xFF)]"]
    obtain x buf' where
      "renorm_out f (drop_bit 8 st) (buf @ [ucast (st AND 0xFF)]) = Some (x, buf')"
      "unat x < 524288 * unat f" "16 * unat f \<le> unat x"
      by blast
    moreover have "renorm_out f st buf
        = renorm_out f (drop_bit 8 st) (buf @ [ucast (st AND 0xFF)])"
      using True by (subst renorm_out.simps) simp
    ultimately show ?thesis by simp
  qed
qed

lemma encode_update:
  assumes f: "1 \<le> unat f" "unat f \<le> 4096" and c: "unat c + unat f \<le> 4096"
    and x: "unat x < 524288 * unat f" "16 * unat f \<le> unat x"
  shows "unat (push_bit PROB_BITS (x div f) + x mod f + c :: u32)
           = unat x div unat f * 4096 + unat x mod unat f + unat c
       \<and> 65536 \<le> unat x div unat f * 4096 + unat x mod unat f + unat c
       \<and> unat x div unat f * 4096 + unat x mod unat f + unat c < 2 ^ 32"
proof -
  let ?q = "unat x div unat f" and ?r = "unat x mod unat f"
  have f0: "0 < unat f" using f(1) by simp
  have q_hi: "?q < 524288"
    using x(1) f0 by (simp add: less_mult_imp_div_less)
  have "16 * unat f div unat f \<le> ?q"
    using x(2) by (rule div_le_mono)
  then have q_lo: "16 \<le> ?q" using f0 by simp
  have r: "?r < unat f" using f0 by simp
  have uq: "unat (x div f) = ?q" by (simp add: unat_div)
  have ur: "unat (x mod f) = ?r" by (simp add: unat_mod)
  have "unat (x div f) * unat (4096 :: u32) < 2 ^ LENGTH(32)"
    using q_hi uq by simp
  then have "unat (x div f * 4096) = unat (x div f) * unat (4096 :: u32)"
    by (simp only: unat_mult_lem)
  then have um: "unat (x div f * 4096) = ?q * 4096" using uq by simp
  have "unat (x div f * 4096) + unat (x mod f) < 2 ^ LENGTH(32)"
    using um ur q_hi r f(2) by simp
  then have "unat (x div f * 4096 + x mod f) = unat (x div f * 4096) + unat (x mod f)"
    by (simp only: unat_add_lem)
  then have ua: "unat (x div f * 4096 + x mod f) = ?q * 4096 + ?r"
    using um ur by simp
  have "unat (x div f * 4096 + x mod f) + unat c < 2 ^ LENGTH(32)"
    using ua q_hi r c by simp
  then have "unat (x div f * 4096 + x mod f + c) = unat (x div f * 4096 + x mod f) + unat c"
    by (simp only: unat_add_lem)
  then have "unat (x div f * 4096 + x mod f + c) = ?q * 4096 + ?r + unat c"
    using ua by simp
  moreover have "push_bit PROB_BITS (x div f) = x div f * 4096"
    by (simp add: PROB_BITS_def push_bit_eq_mult)
  moreover have "65536 \<le> ?q * 4096 + ?r + unat c" using q_lo by simp
  moreover have "?q * 4096 + ?r + unat c < 2 ^ 32" using q_hi r c by simp
  ultimately show ?thesis by simp
qed

lemma Encode_props:
  assumes ok: "model_ok (stats e)" and f: "1 \<le> freqs (stats e) ! unat s"
    and st: "RANS_L \<le> state e"
  shows "\<exists>e' x. Encode s e = Some e'
           \<and> renorm_out (freqs (stats e) ! unat s) (state e) (buffer e) = Some (x, buffer e')
           \<and> unat (state e')
               = unat x div unat (freqs (stats e) ! unat s) * 4096
                 + unat x mod unat (freqs (stats e) ! unat s)
                 + unat (cum_freqs (stats e) ! unat s)
           \<and> unat x div unat (freqs (stats e) ! unat s) * 4096
                 + unat x mod unat (freqs (stats e) ! unat s)
                 + unat (cum_freqs (stats e) ! unat s) < 2 ^ 32
           \<and> RANS_L \<le> state e' \<and> stats e' = stats e"
proof -
  let ?f = "freqs (stats e) ! unat s" and ?c = "cum_freqs (stats e) ! unat s"
  have s: "unat s < 256" by (rule unat_byte_less)
  from model_ok_slot [OF ok s] have slot: "unat ?c + unat ?f \<le> 4096" .
  then have f_hi: "unat ?f \<le> 4096" by simp
  from f have f_lo: "1 \<le> unat ?f" by (simp add: word_le_nat_alt)
  from st have "65536 \<le> unat (state e)" by (simp add: word_le_nat_alt RANS_L_eq)
  with f_hi have "16 * unat ?f \<le> unat (state e)" by simp
  from renorm_out_returns [OF f_lo f_hi this, of "buffer e"]
  obtain x buf' where r: "renorm_out ?f (state e) (buffer e) = Some (x, buf')"
      "unat x < 524288 * unat ?f" "16 * unat ?f \<le> unat x"
    by blast
  let ?e' = "e\<lparr>state := push_bit PROB_BITS (x div ?f) + x mod ?f + ?c, buffer := buf'\<rparr>"
  have E: "Encode s e = Some ?e'"
    using r(1) by (simp add: Encode_def Let_def)
  from encode_update [OF f_lo f_hi slot r(2,3)]
  have u: "unat (state ?e') = unat x div unat ?f * 4096 + unat x mod unat ?f + unat ?c"
    "65536 \<le> unat x div unat ?f * 4096 + unat x mod unat ?f + unat ?c"
    "unat x div unat ?f * 4096 + unat x mod unat ?f + unat ?c < 2 ^ 32"
    by simp_all
  from u(1,2) have "RANS_L \<le> state ?e'"
    by (simp add: word_le_nat_alt RANS_L_eq)
  with E r(1) u show ?thesis
    by (intro exI [of _ ?e'] exI [of _ x]) simp
qed

lemma renorm_in_props:
  "renorm_in d st p = (st', p') \<Longrightarrow> p' \<le> p \<and> (0 < p' \<longrightarrow> RANS_L \<le> st')"
proof (induction d st p rule: renorm_in.induct)
  case (1 d st p)
  show ?case
  proof (cases "st < RANS_L \<and> p > 0")
    case True
    with 1(2) have "renorm_in d (push_bit 8 st OR ucast (d ! (p - 1))) (p - 1) = (st', p')"
      by (subst (asm) renorm_in.simps) simp
    from 1(1) [OF True this] show ?thesis by auto
  next
    case False
    with 1(2) have "st' = st" "p' = p"
      by (subst (asm) renorm_in.simps, simp)+
    with False show ?thesis by (auto simp: not_less)
  qed
qed

lemma Decode_props:
  "ptr (snd (Decode d)) \<le> ptr d \<and> (0 < ptr (snd (Decode d)) \<longrightarrow> RANS_L \<le> d_state (snd (Decode d)))"
proof -
  let ?slot = "d_state d AND (PROB_SCALE - 1)"
  let ?sym = "find_symbol (cum_freqs (d_stats d)) ?slot 0"
  let ?st1 = "drop_bit PROB_BITS (d_state d) * (freqs (d_stats d) ! ?sym) + ?slot
                - cum_freqs (d_stats d) ! ?sym"
  obtain st2 p2 where r: "renorm_in (d_data d) ?st1 (ptr d) = (st2, p2)"
    by (cases "renorm_in (d_data d) ?st1 (ptr d)")
  then have "snd (Decode d) = d\<lparr>d_state := st2, ptr := p2\<rparr>"
    by (simp add: Decode_def Let_def)
  with renorm_in_props [OF r] show ?thesis by simp
qed

text \<open>
  What holds of one call, whatever came before it. For every symbol \<open>s\<close> with model
  frequency \<open>f \<ge> 1\<close> in a well-formed model, \<open>Encode\<close> from a state of at least \<open>RANS_L\<close>
  returns, and leaves a state with \<open>RANS_L \<le> state\<close> whose update
  \<open>(x / f) * 4096 + x mod f + cum[s]\<close>, computed on the renormalised state \<open>x\<close> without
  wrap-around, is below \<open>2^32\<close>. \<open>Decode\<close> never increases the read pointer, and it leaves a
  state of at least \<open>RANS_L\<close> unless it has used up the bytes of the stream (\<open>ptr = 0\<close>).
\<close>

lemma rans_local_invariants:
  "(model_ok (stats e) \<and> 1 \<le> freqs (stats e) ! unat s \<and> RANS_L \<le> state e \<longrightarrow>
      (\<exists>e' x. Encode s e = Some e'
         \<and> renorm_out (freqs (stats e) ! unat s) (state e) (buffer e) = Some (x, buffer e')
         \<and> unat (state e')
             = unat x div unat (freqs (stats e) ! unat s) * 4096
               + unat x mod unat (freqs (stats e) ! unat s)
               + unat (cum_freqs (stats e) ! unat s)
         \<and> unat x div unat (freqs (stats e) ! unat s) * 4096
               + unat x mod unat (freqs (stats e) ! unat s)
               + unat (cum_freqs (stats e) ! unat s) < 2 ^ 32
         \<and> RANS_L \<le> state e'))
   \<and> ptr (snd (Decode d)) \<le> ptr d
   \<and> (0 < ptr (snd (Decode d)) \<longrightarrow> RANS_L \<le> d_state (snd (Decode d)))"
proof (intro conjI impI)
  assume "model_ok (stats e) \<and> 1 \<le> freqs (stats e) ! unat s \<and> RANS_L \<le> state e"
  then have "model_ok (stats e)" "1 \<le> freqs (stats e) ! unat s" "RANS_L \<le> state e"
    by simp_all
  from Encode_props [OF this] show "\<exists>e' x. Encode s e = Some e'
         \<and> renorm_out (freqs (stats e) ! unat s) (state e) (buffer e) = Some (x, buffer e')
         \<and> unat (state e')
             = unat x div unat (freqs (stats e) ! unat s) * 4096
               + unat x mod unat (freqs (stats e) ! unat s)
               + unat (cum_freqs (stats e) ! unat s)
         \<and> unat x div unat (freqs (stats e) ! unat s) * 4096
               + unat x mod unat (freqs (stats e) ! unat s)
               + unat (cum_freqs (stats e) ! unat s) < 2 ^ 32
         \<and> RANS_L \<le> state e'"
    by blast
next
  show "ptr (snd (Decode d)) \<le> ptr d" using Decode_props [of d] by simp
next
  assume "0 < ptr (snd (Decode d))"
  then show "RANS_L \<le> d_state (snd (Decode d))" using Decode_props [of d] by simp
qed

lemma model_123_ok: "model_ok model_123"
  by (simp add: model_ok_def model_123_def with_cum_def sum_list_replicate)

lemma Decode_example_ptr:
  "0 < ptr (snd (Decode \<lparr>d_state = 50343936, d_data = [17, 0, 0, 48, 0, 3], ptr = 2,
                          d_stats = model_123\<rparr>))"
  by code_simp

lemma rans_local_invariants_example:
  "model_ok (stats \<lparr>state = RANS_L, buffer = [], stats = model_123\<rparr>)
   \<and> 1 \<le> freqs (stats \<lparr>state = RANS_L, buffer = [], stats = model_123\<rparr>) ! unat (1 :: byte)
   \<and> RANS_L \<le> state \<lparr>state = RANS_L, buffer = [], stats = model_123\<rparr>
   \<and> (\<exists>e'. Encode 1 \<lparr>state = RANS_L, buffer = [], stats = model_123\<rparr> = Some e'
          \<and> RANS_L \<le> state e')
   \<and> ptr (snd (Decode \<lparr>d_state = 50343936, d_data = [17, 0, 0, 48, 0, 3], ptr = 2,
                       d_stats = model_123\<rparr>)) \<le> 2
   \<and> 0 < ptr (snd (Decode \<lparr>d_state = 50343936, d_data = [17, 0, 0, 48, 0, 3], ptr = 2,
                           d_stats = model_123\<rparr>))
   \<and> RANS_L \<le> d_state (snd (Decode \<lparr>d_state = 50343936, d_data = [17, 0, 0, 48, 0, 3], ptr = 2,
                                    d_stats = model_123\<rparr>))"
proof -
  let ?e = "\<lparr>state = RANS_L, buffer = [], stats = model_123\<rparr>"
  let ?d = "\<lparr>d_state = 50343936, d_data = [17, 0, 0, 48, 0, 3], ptr = 2, d_stats = model_123\<rparr>"
  have h: "model_ok (stats ?e) \<and> 1 \<le> freqs (stats ?e) ! unat (1 :: byte) \<and> RANS_L \<le> state ?e"
    using model_123_ok by (simp add: model_123_def with_cum_def)
  from rans_local_invariants [of ?e 1 ?d] h Decode_example_ptr show ?thesis
    by auto
qed

section \<open>The whole pipeline on concrete inputs\<close>

subsection \<open>The model region carries the frequency table verbatim\<close>

lemma concat_pairs:
  "length (concat (map (\<lambda>i. [a i, b i]) [0..<n])) = 2 * n
   \<and> (\<forall>i<n. concat (map (\<lambda>i. [a i, b i]) [0..<n]) ! (2 * i) = a i
            \<and> concat (map (\<lambda>i. [a i, b i]) [0..<n]) ! (2 * i + 1) = b i)"
proof (induction n)
  case 0
  then show ?case by simp
next
  case (Suc n)
  let ?xs = "concat (map (\<lambda>i. [a i, b i]) [0..<n])"
  have len: "length ?xs = 2 * n" using Suc by simp
  have unfold: "concat (map (\<lambda>i. [a i, b i]) [0..<Suc n]) = ?xs @ [a n, b n]"
    by simp
  have "(?xs @ [a n, b n]) ! (2 * i) = a i \<and> (?xs @ [a n, b n]) ! (2 * i + 1) = b i"
    if "i < Suc n" for i
  proof (cases "i = n")
    case True
    then show ?thesis using len by (simp add: nth_append)
  next
    case False
    with that have "i < n" by simp
    then have "2 * i < length ?xs" "2 * i + 1 < length ?xs" using len by simp_all
    with Suc \<open>i < n\<close> show ?thesis by (simp add: nth_append)
  qed
  then show ?case unfolding unfold using len by simp
qed

lemma u16_of_bytes:
  assumes "unat (f :: u32) < 65536"
  shows "ucast (ucast (f AND 0xFF) :: byte) OR push_bit 8 (ucast (ucast (drop_bit 8 f AND 0xFF) :: byte)) = f"
proof (rule bit_word_eqI)
  fix n :: nat
  assume "n < LENGTH(32)"
  from assms have "take_bit 16 (unat f) = unat f"
    by (intro take_bit_nat_eq_self) simp
  then have "bit (unat f) n \<Longrightarrow> n < 16"
    by (metis bit_take_bit_iff)
  then have hi: "bit f n \<Longrightarrow> n < 16"
    by (simp add: bit_unsigned_iff)
  have m: "w AND 0xFF = take_bit 8 w" for w :: u32
    by (simp add: take_bit_eq_mask mask_eq_exp_minus_1)
  consider "n < 8" | "8 \<le> n" "n < 16" | "16 \<le> n" by linarith
  then show "bit ((ucast (ucast (f AND 0xFF) :: byte) :: u32)
                  OR push_bit 8 (ucast (ucast (drop_bit 8 f AND 0xFF) :: byte))) n = bit f n"
    unfolding m using hi \<open>n < LENGTH(32)\<close> by cases (auto simp: bit_simps)
qed

lemma parse_model_GetModelData:
  assumes "length (freqs (stats e)) = 256" and "\<forall>i<256. unat (freqs (stats e) ! i) < 65536"
  shows "parse_model (GetModelData e) = freqs (stats e)"
proof (rule nth_equalityI)
  show "length (parse_model (GetModelData e)) = length (freqs (stats e))"
    using assms(1) by (simp add: parse_model_def)
next
  fix i assume "i < length (parse_model (GetModelData e))"
  then have i: "i < 256" by (simp add: parse_model_def)
  let ?a = "\<lambda>i. ucast (freqs (stats e) ! i AND 0xFF) :: byte"
  let ?b = "\<lambda>i. ucast (drop_bit 8 (freqs (stats e) ! i) AND 0xFF) :: byte"
  have G: "GetModelData e = concat (map (\<lambda>i. [?a i, ?b i]) [0..<256])"
    by (simp add: GetModelData_def Let_def)
  from concat_pairs [of ?a ?b 256] i
  have "GetModelData e ! (2 * i) = ?a i" "GetModelData e ! (2 * i + 1) = ?b i"
    unfolding G by simp_all
  then have "parse_model (GetModelData e) ! i
      = ucast (?a i) OR push_bit 8 (ucast (?b i))"
    using i by (simp add: parse_model_def)
  also have "\<dots> = freqs (stats e) ! i"
    using assms(2) i by (intro u16_of_bytes) simp
  finally show "parse_model (GetModelData e) ! i = freqs (stats e) ! i" .
qed

lemma SetModel_GetModelData:
  assumes "model_ok (stats e)"
  shows "SetModel (GetModelData e) d = d\<lparr>d_stats := stats e\<rparr>"
proof -
  from assms have len: "length (freqs (stats e)) = 256"
    and cum: "cum_freqs (stats e) = build_cum (freqs (stats e))"
    by (simp_all add: model_ok_def)
  have "unat (freqs (stats e) ! i) < 65536" if "i < 256" for i
    using model_ok_slot [OF assms that] by simp
  with len have "parse_model (GetModelData e) = freqs (stats e)"
    by (intro parse_model_GetModelData) simp_all
  moreover have "with_cum (freqs (stats e)) = stats e"
    using cum by (simp add: with_cum_def)
  ultimately show ?thesis
    by (simp add: SetModel_def length_GetModelData)
qed

subsection \<open>Reading a container back\<close>

lemma unat_of_nat_length: "length xs < 2 ^ 32 \<Longrightarrow> unat (of_nat (length xs) :: u32) = length xs"
  by (simp add: unat_of_nat)

lemma read_region_exact: "read_region (pre @ r @ rest) (length pre) (length r) = r"
  by (simp add: read_region_def)

lemma Decompress_write_container:
  assumes "length r < 2 ^ 32" "length f < 2 ^ 32" "length m < 2 ^ 32" "length md < 2 ^ 32"
  shows "Decompress st0 (write_container n r f m md)
       = Some (decode_regions st0 (of_nat n) r f m md)"
proof -
  let ?h = "le32 0x4D49444F @ le32 (of_nat n) @ le32 (of_nat (length r)) @ le32 (of_nat (length f))
            @ le32 (of_nat (length m)) @ le32 (of_nat (length md))"
  have w: "write_container n r f m md = ?h @ r @ f @ m @ md"
    using assms by (simp add: write_container_def Let_def unat_of_nat_length)
  have h: "length ?h = 24" by (simp add: length_le32)
  have len: "\<not> length (write_container n r f m md) < 4" "\<not> length (write_container n r f m md) < 24"
    by (simp_all add: length_write_container)
  have r1: "read_region (write_container n r f m md) 24 (length r) = r"
    using read_region_exact [of ?h r "f @ m @ md"] unfolding w h by simp
  have r2: "read_region (write_container n r f m md) (24 + length r) (length f) = f"
    using read_region_exact [of "?h @ r" f "m @ md"] unfolding w by (simp add: length_le32)
  have r3: "read_region (write_container n r f m md) (24 + length r + length f) (length m) = m"
    using read_region_exact [of "?h @ r @ f" m md] unfolding w by (simp add: length_le32 add.assoc)
  have r4: "read_region (write_container n r f m md) (24 + length r + length f + length m)
              (length md) = md"
    using read_region_exact [of "?h @ r @ f @ m" md "[]"] unfolding w by (simp add: length_le32 add.assoc)
  show ?thesis
    unfolding Decompress_def write_container_header
    using len assms r1 r2 r3 r4 by (simp add: unat_of_nat_length)
qed

subsection \<open>Compress, stage by stage\<close>

lemma Compress_staged:
  assumes "data \<noteq> []"
    and "Count data (stats enc_impl0) = Some st"
    and "parse_loop data 0 ([], [], []) = (literals, matches, is_match)"
    and "encode_all (rev literals) \<lparr>state = RANS_L, buffer = [], stats = st\<rparr> = Some e1"
  shows "Compress data =
           Some (Artifact (write_container (length data) (GetOutput (RansEncoder_Flush e1))
                   (write_bits_of is_match) (concat (map pack_match matches))
                   (GetModelData (RansEncoder_Flush e1))))"
proof -
  have "BuildModel data (RansEncoder_Init enc_impl0) = Some \<lparr>state = RANS_L, buffer = [], stats = st\<rparr>"
    using assms(2) by (simp add: BuildModel_def RansEncoder_Init_def enc_impl0_def)
  with assms(1,3,4) show ?thesis
    by (simp add: Compress_def write_bits_of_def)
qed

lemma parse_loop_literals:
  "parse_loop data pos (ls, ms, fs) = (ls', ms', fs') \<Longrightarrow> set ls \<subseteq> set data
   \<Longrightarrow> set ls' \<subseteq> set data"
proof (induction data pos "(ls, ms, fs)" arbitrary: ls ms fs rule: parse_loop.induct)
  case (1 data pos ls ms fs)
  show ?case
  proof (cases "pos < length data")
    case False
    with 1(3,4) show ?thesis by (simp add: parse_loop.simps [of data pos])
  next
    case True
    let ?m = "FindLongestMatch data pos 32768"
    show ?thesis
    proof (cases "3 \<le> match_length ?m")
      case m: True
      with 1(3) True
      have "parse_loop data (pos + match_length ?m) (ls, ms @ [?m], fs @ [True]) = (ls', ms', fs')"
        by (simp add: parse_loop.simps [of data pos] Let_def)
      from 1(1) [OF True refl m this 1(4)] show ?thesis .
    next
      case m: False
      with 1(3) True
      have "parse_loop data (pos + 1) (ls @ [data ! pos], ms, fs @ [False]) = (ls', ms', fs')"
        by (simp add: parse_loop.simps [of data pos] Let_def)
      moreover have "set (ls @ [data ! pos]) \<subseteq> set data"
        using 1(4) True by simp
      ultimately show ?thesis using 1(2) [OF True refl m] by blast
    qed
  qed
qed

lemma encode_all_returns:
  "model_ok (stats e) \<Longrightarrow> RANS_L \<le> state e \<Longrightarrow> \<forall>s \<in> set ss. 1 \<le> freqs (stats e) ! unat s
   \<Longrightarrow> \<exists>e'. encode_all ss e = Some e'"
proof (induction ss arbitrary: e)
  case Nil
  then show ?case by simp
next
  case (Cons s ss)
  from Cons.prems have "1 \<le> freqs (stats e) ! unat s" by simp
  from Encode_props [OF Cons.prems(1) this Cons.prems(2)]
  obtain e1 where e1: "Encode s e = Some e1" "RANS_L \<le> state e1" "stats e1 = stats e"
    by blast
  with Cons.prems have "\<exists>e'. encode_all ss e1 = Some e'"
    by (intro Cons.IH) simp_all
  with e1(1) show ?case by simp
qed

text \<open>
  On a non-empty input of fewer than \<open>2^32\<close> bytes \<open>Compress\<close> returns an artifact: every
  literal is a byte of the input, the model gives it a frequency of at least one, and the
  renormalisation loop of the encoder ends.
\<close>

lemma Compress_returns:
  assumes "data \<noteq> []" and "length data < 2 ^ 32"
  shows "\<exists>a. Compress data = Some (Artifact a)"
proof -
  from Count_props [OF assms, of "stats enc_impl0"]
  obtain st where st: "Count data (stats enc_impl0) = Some st" "model_ok st"
      "\<forall>b \<in> set data. 1 \<le> freqs st ! unat b"
    by blast
  obtain ls ms fs where p: "parse_loop data 0 ([], [], []) = (ls, ms, fs)"
    by (cases "parse_loop data 0 ([], [], [])")
  from parse_loop_literals [OF p] have "set (rev ls) \<subseteq> set data" by simp
  with st(3) have "\<forall>s \<in> set (rev ls). 1 \<le> freqs st ! unat s" by blast
  with st(2) have "\<exists>e'. encode_all (rev ls) \<lparr>state = RANS_L, buffer = [], stats = st\<rparr> = Some e'"
    by (intro encode_all_returns) simp_all
  then obtain e1 where "encode_all (rev ls) \<lparr>state = RANS_L, buffer = [], stats = st\<rparr> = Some e1"
    by blast
  from Compress_staged [OF assms(1) st(1) p this] show ?thesis by blast
qed

subsection \<open>The round trip\<close>

lemma GetModelData_Flush: "GetModelData (RansEncoder_Flush e) = GetModelData e"
  by (simp add: GetModelData_def RansEncoder_Flush_def)

lemma stats_Flush: "stats (RansEncoder_Flush e) = stats e"
  by (simp add: RansEncoder_Flush_def)

lemma model_6_ok: "model_ok model_6"
  by (simp add: model_ok_def model_6_def with_cum_def sum_list_replicate)

lemma Count_6: "Count [1, 2, 3, 4, 5, 6] (stats enc_impl0) = Some model_6"
  by code_simp

lemma parse_6:
  "parse_loop [1, 2, 3, 4, 5, 6] 0 ([], [], [])
     = ([1, 2, 3, 4, 5, 6], [], [False, False, False, False, False, False])"
  by (simp add: parse_loop.simps FindLongestMatch_def search_loop.simps match_len.simps Let_def)

lemma encode_6:
  "encode_all (rev [1, 2, 3, 4, 5, 6]) \<lparr>state = RANS_L, buffer = [], stats = model_6\<rparr>
     = Some \<lparr>state = 12111958, buffer = [120], stats = model_6\<rparr>"
  by code_simp

lemma output_6:
  "GetOutput (RansEncoder_Flush \<lparr>state = 12111958, buffer = [120], stats = model_6\<rparr>)
     = [120, 86, 208, 184, 0]"
  by code_simp

lemma flags_6: "write_bits_of [False, False, False, False, False, False] = [0]"
  by code_simp

lemma Compress_6:
  "Compress [1, 2, 3, 4, 5, 6]
     = Some (Artifact (write_container 6 [120, 86, 208, 184, 0] [0] []
               (GetModelData \<lparr>state = 12111958, buffer = [120], stats = model_6\<rparr>)))"
proof -
  have len: "length [1, 2, 3, 4, 5, 6 :: byte] = 6" by simp
  have "[1, 2, 3, 4, 5, 6 :: byte] \<noteq> []" by simp
  from Compress_staged [OF this Count_6 parse_6 encode_6] show ?thesis
    by (simp only: output_6 flags_6 GetModelData_Flush len list.map concat.simps)
qed

lemma decoder_6:
  "SetModel (GetModelData \<lparr>state = 12111958, buffer = [120], stats = model_6\<rparr>)
     (RansDecoder_Init st0 [120, 86, 208, 184, 0])
   = \<lparr>d_state = 12111958, d_data = [120, 86, 208, 184, 0], ptr = Suc 0, d_stats = model_6\<rparr>"
proof -
  have "(ucast (86 :: byte) OR push_bit 8 (ucast (208 :: byte)) OR push_bit 16 (ucast (184 :: byte))
          OR push_bit 24 (ucast (0 :: byte)) :: u32) = 12111958"
    by code_simp
  then show ?thesis
    using model_6_ok by (simp add: SetModel_GetModelData RansDecoder_Init_def)
qed

lemma emit_6:
  "emit_loop 6 []
     \<lparr>output_buf = [], flags_in = BitReader_init [0], match_ptr = 0,
      rans = \<lparr>d_state = 12111958, d_data = [120, 86, 208, 184, 0], ptr = Suc 0, d_stats = model_6\<rparr>\<rparr>
   = ([1, 3, 6, 4, 1, 5], None)"
  by code_simp

text \<open>
  Claim C1 says that decompressing the artifact of any non-empty input gives the input
  back. On the six bytes 1, 2, 3, 4, 5, 6 the code does not: \<open>Compress\<close> produces an
  artifact, and \<open>Decompress\<close> on it writes 1, 3, 6, 4, 1, 5 without reporting an error. The
  encoder emits a byte when the state reaches \<open>2^19 * freq\<close>; the decoder refills only
  below \<open>RANS_L = 2^16\<close> and so leaves that byte unread.
\<close>

theorem roundtrip_fails:
  "\<exists>a. Compress [1, 2, 3, 4, 5, 6] = Some (Artifact a)
      \<and> Decompress st0 a = Some (Written [1, 3, 6, 4, 1, 5] None)"
proof -
  let ?md = "GetModelData \<lparr>state = 12111958, buffer = [120], stats = model_6\<rparr>"
  have "Decompress st0 (write_container 6 [120, 86, 208, 184, 0] [0] [] ?md)
      = Some (decode_regions st0 (of_nat 6) [120, 86, 208, 184, 0] [0] [] ?md)"
    by (rule Decompress_write_container) (simp_all add: length_GetModelData)
  also have "decode_regions st0 (of_nat 6) [120, 86, 208, 184, 0] [0] [] ?md
      = Written [1, 3, 6, 4, 1, 5] None"
    by (simp add: decode_regions_def decoder_6 emit_6)
  finally show ?thesis using Compress_6 by blast
qed

subsection \<open>The order of decoded symbols, and a run of one byte\<close>

lemma Count_123: "Count [1, 2, 3] (stats enc_impl0) = Some model_123"
  by code_simp

lemma encode_010:
  "encode_all [0, 1, 0] \<lparr>state = RANS_L, buffer = [], stats = model_123\<rparr>
     = Some \<lparr>state = 50343936, buffer = [17, 0], stats = model_123\<rparr>"
  by code_simp

lemma output_010:
  "GetOutput (RansEncoder_Flush \<lparr>state = 50343936, buffer = [17, 0], stats = model_123\<rparr>)
     = [17, 0, 0, 48, 0, 3]"
  by code_simp

lemma decoder_010:
  "SetModel (GetModelData (RansEncoder_Flush \<lparr>state = 50343936, buffer = [17, 0], stats = model_123\<rparr>))
     (RansDecoder_Init st0 [17, 0, 0, 48, 0, 3])
   = \<lparr>d_state = 50343936, d_data = [17, 0, 0, 48, 0, 3], ptr = 2, d_stats = model_123\<rparr>"
proof -
  have "(ucast (0 :: byte) OR push_bit 8 (ucast (48 :: byte)) OR push_bit 16 (ucast (0 :: byte))
          OR push_bit 24 (ucast (3 :: byte)) :: u32) = 50343936"
    by code_simp
  then show ?thesis
    using model_123_ok
    by (simp add: SetModel_GetModelData stats_Flush RansDecoder_Init_def)
qed

lemma decode_010:
  "decode_n 3 \<lparr>d_state = 50343936, d_data = [17, 0, 0, 48, 0, 3], ptr = 2, d_stats = model_123\<rparr>
     = [0, 1, 1]"
  by code_simp

text \<open>
  Claim C2 says that encoding symbols of non-zero frequency and decoding as many yields
  them reversed. With the model built from the bytes 1, 2, 3 (where the symbols 0 and 1
  have the frequencies 1 and 1365) the code does not: the symbols 0, 1, 0 encoded in that
  order decode as 0, 1, 1 and not as the reversed sequence 0, 1, 0. It is the defect of
  claim C1: the encoder emits two bytes before the last symbol, the decoder reads one.
\<close>

theorem rans_reversal_fails:
  "\<exists>e0 e1. BuildModel [1, 2, 3] (RansEncoder_Init enc_impl0) = Some e0
      \<and> freqs (stats e0) ! unat (0 :: byte) = 1 \<and> freqs (stats e0) ! unat (1 :: byte) = 1365
      \<and> encode_all [0, 1, 0] e0 = Some e1
      \<and> decode_n 3 (SetModel (GetModelData (RansEncoder_Flush e1))
                      (RansDecoder_Init st0 (GetOutput (RansEncoder_Flush e1))))
          = [0, 1, 1]
      \<and> rev [0, 1, 0 :: byte] \<noteq> [0, 1, 1]"
proof -
  let ?e0 = "\<lparr>state = RANS_L, buffer = [], stats = model_123\<rparr>"
  let ?e1 = "\<lparr>state = 50343936, buffer = [17, 0], stats = model_123\<rparr>"
  have "BuildModel [1, 2, 3] (RansEncoder_Init enc_impl0) = Some ?e0"
    using Count_123 by (simp add: BuildModel_def RansEncoder_Init_def enc_impl0_def)
  moreover have "freqs (stats ?e0) ! unat (0 :: byte) = 1" "freqs (stats ?e0) ! unat (1 :: byte) = 1365"
    by (simp_all add: model_123_def with_cum_def)
  moreover have "decode_n 3 (SetModel (GetModelData (RansEncoder_Flush ?e1))
                      (RansDecoder_Init st0 (GetOutput (RansEncoder_Flush ?e1)))) = [0, 1, 1]"
    by (simp only: output_010 decoder_010 decode_010)
  ultimately show ?thesis using encode_010 by (intro exI [of _ ?e0] exI [of _ ?e1]) simp
qed

lemma model_7_ok: "model_ok model_7"
  by (simp add: model_ok_def model_7_def with_cum_def sum_list_replicate)

lemma Count_7: "Count [6, 7, 2, 5, 3, 3, 7] (stats enc_impl0) = Some model_7"
  by code_simp

lemma parse_7:
  "parse_loop [6, 7, 2, 5, 3, 3, 7] 0 ([], [], [])
     = ([6, 7, 2, 5, 3, 3, 7], [], [False, False, False, False, False, False, False])"
  by (simp add: parse_loop.simps FindLongestMatch_def search_loop.simps match_len.simps Let_def)

lemma encode_7:
  "encode_all [7, 3, 3, 5, 2, 7, 6] \<lparr>state = RANS_L, buffer = [], stats = model_7\<rparr>
     = Some \<lparr>state = 13347398, buffer = [190], stats = model_7\<rparr>"
  by code_simp

lemma output_7:
  "GetOutput (RansEncoder_Flush \<lparr>state = 13347398, buffer = [190], stats = model_7\<rparr>)
     = [190, 70, 170, 203, 0]"
  by code_simp

lemma decoder_7:
  "SetModel (GetModelData (RansEncoder_Flush \<lparr>state = 13347398, buffer = [190], stats = model_7\<rparr>))
     (RansDecoder_Init st0 [190, 70, 170, 203, 0])
   = \<lparr>d_state = 13347398, d_data = [190, 70, 170, 203, 0], ptr = Suc 0, d_stats = model_7\<rparr>"
proof -
  have "(ucast (70 :: byte) OR push_bit 8 (ucast (170 :: byte)) OR push_bit 16 (ucast (203 :: byte))
          OR push_bit 24 (ucast (0 :: byte)) :: u32) = 13347398"
    by code_simp
  then show ?thesis
    using model_7_ok
    by (simp add: SetModel_GetModelData stats_Flush RansDecoder_Init_def)
qed

lemma after_7:
  "decoder_after 6 \<lparr>d_state = 13347398, d_data = [190, 70, 170, 203, 0], ptr = Suc 0, d_stats = model_7\<rparr>
     = \<lparr>d_state = 59136, d_data = [190, 70, 170, 203, 0], ptr = 0, d_stats = model_7\<rparr>"
  by code_simp

text \<open>
  Claim C4 says that \<open>Encode\<close> keeps the state in the valid interval without overflow, that
  \<open>Decode\<close> never increases the read pointer, and that after a decode the state is again at
  least \<open>RANS_L\<close> whenever more symbols are available. The first two hold of every call. The
  third does not: for the input 6, 7, 2, 5, 3, 3, 7, all of whose bytes are literals with a
  frequency of at least 1, the encoder as \<open>Compress\<close> drives it produces the stream
  \<open>be 46 aa cb 00\<close>, and after six of the seven decodes the state of the decoder is 59136,
  below \<open>RANS_L = 65536\<close>, with no byte left to read although one symbol is still to be
  decoded. It is the defect of claim C1: the encoder renormalises against \<open>2^19 * freq\<close>, the
  decoder against \<open>RANS_L = 2^16\<close>, so the decoder takes the emitted byte too late and runs
  out of bytes before it runs out of symbols.
\<close>

theorem decode_state_below_RANS_L:
  "\<exists>e0 e1 d. BuildModel [6, 7, 2, 5, 3, 3, 7] (RansEncoder_Init enc_impl0) = Some e0
      \<and> list_all (\<lambda>s. 1 \<le> freqs (stats e0) ! unat s) [6, 7, 2, 5, 3, 3, 7 :: byte]
      \<and> fst (parse_loop [6, 7, 2, 5, 3, 3, 7] 0 ([], [], [])) = [6, 7, 2, 5, 3, 3, 7]
      \<and> encode_all (rev [6, 7, 2, 5, 3, 3, 7]) e0 = Some e1
      \<and> GetOutput (RansEncoder_Flush e1) = [190, 70, 170, 203, 0]
      \<and> decoder_after 6 (SetModel (GetModelData (RansEncoder_Flush e1))
                           (RansDecoder_Init st0 (GetOutput (RansEncoder_Flush e1)))) = d
      \<and> d_state d = 59136 \<and> d_state d < RANS_L \<and> ptr d = 0"
proof -
  let ?e0 = "\<lparr>state = RANS_L, buffer = [], stats = model_7\<rparr>"
  let ?e1 = "\<lparr>state = 13347398, buffer = [190], stats = model_7\<rparr>"
  let ?d = "\<lparr>d_state = 59136, d_data = [190, 70, 170, 203, 0], ptr = 0, d_stats = model_7\<rparr>"
  have "BuildModel [6, 7, 2, 5, 3, 3, 7] (RansEncoder_Init enc_impl0) = Some ?e0"
    using Count_7 by (simp add: BuildModel_def RansEncoder_Init_def enc_impl0_def)
  moreover have "list_all (\<lambda>s. 1 \<le> freqs (stats ?e0) ! unat s) [6, 7, 2, 5, 3, 3, 7 :: byte]"
    by (simp add: model_7_def with_cum_def)
  moreover have "encode_all (rev [6, 7, 2, 5, 3, 3, 7]) ?e0 = Some ?e1"
    using encode_7 by simp
  moreover have "decoder_after 6 (SetModel (GetModelData (RansEncoder_Flush ?e1))
                      (RansDecoder_Init st0 (GetOutput (RansEncoder_Flush ?e1)))) = ?d"
    by (simp only: output_7 decoder_7 after_7)
  moreover have "d_state ?d = 59136" "d_state ?d < RANS_L" "ptr ?d = 0"
    by (simp_all add: RANS_L_eq)
  moreover have "fst (parse_loop [6, 7, 2, 5, 3, 3, 7] 0 ([], [], [])) = [6, 7, 2, 5, 3, 3, 7 :: byte]"
    by (simp only: parse_7 fst_conv)
  ultimately show ?thesis
    using output_7 by (intro exI [of _ ?e0] exI [of _ ?e1] exI [of _ ?d]) simp
qed

lemma model_X_ok: "model_ok model_X"
  by (simp add: model_ok_def model_X_def with_cum_def sum_list_replicate)

lemma Count_X: "Count (replicate 64 0x58) (stats enc_impl0) = Some model_X"
  by code_simp

lemma parse_X:
  "parse_loop (replicate 64 0x58) 0 ([], [], []) =
     ([0x58, 0x58, 0x58],
      [\<lparr>distance = 3, match_length = 3\<rparr>, \<lparr>distance = 6, match_length = 6\<rparr>,
       \<lparr>distance = 12, match_length = 12\<rparr>, \<lparr>distance = 24, match_length = 24\<rparr>,
       \<lparr>distance = 48, match_length = 16\<rparr>],
      [False, False, False, True, True, True, True, True])"
  by (simp add: parse_loop.simps FindLongestMatch_def search_loop.simps match_len.simps Let_def)

lemma encode_X:
  "encode_all (rev [0x58, 0x58, 0x58]) \<lparr>state = RANS_L, buffer = [], stats = model_X\<rparr>
     = Some \<lparr>state = 65536, buffer = [], stats = model_X\<rparr>"
  by code_simp

lemma output_X:
  "GetOutput (RansEncoder_Flush \<lparr>state = 65536, buffer = [], stats = model_X\<rparr>) = [0, 0, 1, 0]"
  by code_simp

lemma flags_X: "write_bits_of [False, False, False, True, True, True, True, True] = [31]"
  by code_simp

lemma packed_X:
  "concat (map pack_match
     [\<lparr>distance = 3, match_length = 3\<rparr>, \<lparr>distance = 6, match_length = 6\<rparr>,
      \<lparr>distance = 12, match_length = 12\<rparr>, \<lparr>distance = 24, match_length = 24\<rparr>,
      \<lparr>distance = 48, match_length = 16\<rparr>])
   = [3, 0, 3, 6, 0, 6, 12, 0, 12, 24, 0, 24, 48, 0, 16]"
  by code_simp

lemma Compress_X:
  "Compress (replicate 64 0x58)
     = Some (Artifact (write_container 64 [0, 0, 1, 0] [31]
               [3, 0, 3, 6, 0, 6, 12, 0, 12, 24, 0, 24, 48, 0, 16]
               (GetModelData \<lparr>state = 65536, buffer = [], stats = model_X\<rparr>)))"
proof -
  have len: "length (replicate 64 (0x58 :: byte)) = 64" by simp
  have "replicate 64 (0x58 :: byte) \<noteq> []" by simp
  from Compress_staged [OF this Count_X parse_X encode_X] show ?thesis
    by (simp only: output_X flags_X packed_X GetModelData_Flush len)
qed

lemma decoder_X:
  "SetModel (GetModelData \<lparr>state = 65536, buffer = [], stats = model_X\<rparr>)
     (RansDecoder_Init st0 [0, 0, 1, 0])
   = \<lparr>d_state = 65536, d_data = [0, 0, 1, 0], ptr = 0, d_stats = model_X\<rparr>"
proof -
  have "(ucast (0 :: byte) OR push_bit 8 (ucast (0 :: byte)) OR push_bit 16 (ucast (1 :: byte))
          OR push_bit 24 (ucast (0 :: byte)) :: u32) = 65536"
    by code_simp
  then show ?thesis
    using model_X_ok by (simp add: SetModel_GetModelData RansDecoder_Init_def)
qed

lemma emit_X:
  "emit_loop 64 [3, 0, 3, 6, 0, 6, 12, 0, 12, 24, 0, 24, 48, 0, 16]
     \<lparr>output_buf = [], flags_in = BitReader_init [31], match_ptr = 0,
      rans = \<lparr>d_state = 65536, d_data = [0, 0, 1, 0], ptr = 0, d_stats = model_X\<rparr>\<rparr>
   = (replicate 64 0x58, None)"
  by code_simp

text \<open>
  Claim C5, amended. For the input of 64 bytes all equal to \<open>0x58\<close> the parser emits three
  literals and then the matches (3, 3), (6, 6), (12, 12), (24, 24) and (48, 16): a match
  may not run into the current position, so its length is at most its distance. The
  round trip through \<open>Compress\<close> and \<open>Decompress\<close> reproduces the input exactly.
\<close>

theorem run_of_64_parse_and_roundtrip:
  "parse_loop (replicate 64 0x58) 0 ([], [], []) =
     ([0x58, 0x58, 0x58],
      [\<lparr>distance = 3, match_length = 3\<rparr>, \<lparr>distance = 6, match_length = 6\<rparr>,
       \<lparr>distance = 12, match_length = 12\<rparr>, \<lparr>distance = 24, match_length = 24\<rparr>,
       \<lparr>distance = 48, match_length = 16\<rparr>],
      [False, False, False, True, True, True, True, True])
   \<and> (\<exists>a. Compress (replicate 64 0x58) = Some (Artifact a)
          \<and> Decompress st0 a = Some (Written (replicate 64 0x58) None))"
proof -
  let ?md = "GetModelData \<lparr>state = 65536, buffer = [], stats = model_X\<rparr>"
  let ?m = "[3, 0, 3, 6, 0, 6, 12, 0, 12, 24, 0, 24, 48, 0, 16] :: byte list"
  have "Decompress st0 (write_container 64 [0, 0, 1, 0] [31] ?m ?md)
      = Some (decode_regions st0 (of_nat 64) [0, 0, 1, 0] [31] ?m ?md)"
    by (rule Decompress_write_container) (simp_all add: length_GetModelData)
  also have "decode_regions st0 (of_nat 64) [0, 0, 1, 0] [31] ?m ?md
      = Written (replicate 64 0x58) None"
    by (simp add: decode_regions_def decoder_X emit_X)
  finally show ?thesis using Compress_X parse_X by blast
qed

text \<open>
  The parse is not one literal followed by matches of distance 1 and length 3, however
  many.
\<close>

theorem run_of_64_parse_counterexample:
  "\<not> (\<exists>n. parse_loop (replicate 64 0x58) 0 ([], [], [])
            = ([0x58], replicate n \<lparr>distance = 1, match_length = 3\<rparr>, False # replicate n True))"
  by (simp add: parse_X)

end
